theory Spec2Isabelle
  imports Main "HOL-Library.Word"
begin

section \<open>The ordered map of atMap.c++\<close>

text \<open>
  The map is a red-black tree of nodes linked by \<^verbatim>\<open>leftChild\<close>, \<^verbatim>\<open>rightChild\<close> and
  \<^verbatim>\<open>parent\<close> pointers. The embedding keeps the tree as a datatype: a null pointer is
  \<open>NullNode\<close>, a node owns its two children. The \<^verbatim>\<open>parent\<close> pointer of a node is
  represented by the chain of ancestors of the node, nearest first: a pointer to a node
  is the pair of the subtree rooted there and that chain. Every ancestor records which
  child the chain came from, its own colour, key and value, and its other child.

  Keys are \<^verbatim>\<open>atItem\<close> objects; the map only calls their virtual methods \<^verbatim>\<open>compare\<close>
  and \<^verbatim>\<open>equals\<close>, which are parameters of every operation here:
  \<open>cmp a b\<close> stands for \<^verbatim>\<open>a->compare(b)\<close> and \<open>eq a b\<close> for \<^verbatim>\<open>a->equals(b)\<close>.
  A value is a pointer that may be null: \<open>None\<close> is the null pointer. A key in a node
  is never null: \<^verbatim>\<open>findNode\<close> and \<^verbatim>\<open>addEntry\<close> call its methods without a check.

  In this representation a node is always the left or the right child of its parent,
  so the error return of \<^verbatim>\<open>getChildType\<close> (a node that is not a child of its own parent)
  has no counterpart. Where the source would dereference a null pointer the functions
  below return \<open>None\<close> or \<open>NullDereference\<close>. Messages sent through \<^verbatim>\<open>notify\<close> are returned
  as a list of notices by the two operations whose claims speak about them,
  \<^verbatim>\<open>addEntry\<close> and \<^verbatim>\<open>getSortedList\<close>. The counter \<^verbatim>\<open>treeSize\<close> is an unsigned long, taken
  as 64 bits wide: incrementing and decrementing wrap around.
\<close>

subsection \<open>Nodes, parent chains and the map object\<close>

datatype atMapColor = AT_MAP_RED | AT_MAP_BLACK

datatype atMapChildType = AT_MAP_LEFTCHILD | AT_MAP_RIGHTCHILD | AT_MAP_ROOTNODE

datatype ('k, 'v) atMapNode =
    NullNode
  | MapNode "('k, 'v) atMapNode" atMapColor 'k "'v option" "('k, 'v) atMapNode"

text \<open>
  One link of the parent chain. \<open>LeftOf c k v r\<close>: the node below is the left child of
  a parent with colour \<open>c\<close>, key \<open>k\<close>, value \<open>v\<close> and right child \<open>r\<close>.
  \<open>RightOf l c k v\<close>: the node below is the right child, the parent's left child is \<open>l\<close>.
\<close>

datatype ('k, 'v) parentLink =
    LeftOf atMapColor 'k "'v option" "('k, 'v) atMapNode"
  | RightOf "('k, 'v) atMapNode" atMapColor 'k "'v option"

type_synonym ('k, 'v) parents = "('k, 'v) parentLink list"

record ('k, 'v) atMap =
  treeRoot :: "('k, 'v) atMapNode"
  treeSize :: "64 word"

datatype atNotice = KeyCollisionWarning | MapInconsistencyError | SizeMismatchError

definition emptyMap :: "('k, 'v) atMap" where
  "emptyMap = \<lparr>treeRoot = NullNode, treeSize = 0\<rparr>"

subsection \<open>Pointer helpers\<close>

fun plug :: "('k, 'v) parentLink \<Rightarrow> ('k, 'v) atMapNode \<Rightarrow> ('k, 'v) atMapNode" where
  "plug (LeftOf c k v r) t = MapNode t c k v r"
| "plug (RightOf l c k v) t = MapNode l c k v t"

text \<open>The tree seen from \<^verbatim>\<open>treeRoot\<close> when subtree \<open>t\<close> hangs below the chain.\<close>

fun rootOf :: "('k, 'v) atMapNode \<Rightarrow> ('k, 'v) parents \<Rightarrow> ('k, 'v) atMapNode" where
  "rootOf t [] = t"
| "rootOf t (p # ps) = rootOf (plug p t) ps"

fun getChildType :: "('k, 'v) parents \<Rightarrow> atMapChildType" where
  "getChildType [] = AT_MAP_ROOTNODE"
| "getChildType (LeftOf c k v r # ps) = AT_MAP_LEFTCHILD"
| "getChildType (RightOf l c k v # ps) = AT_MAP_RIGHTCHILD"

fun linkColor :: "('k, 'v) parentLink \<Rightarrow> atMapColor" where
  "linkColor (LeftOf c k v r) = c"
| "linkColor (RightOf l c k v) = c"

text \<open>\<^verbatim>\<open>t && t->color == AT_MAP_RED\<close>\<close>

fun isRed :: "('k, 'v) atMapNode \<Rightarrow> bool" where
  "isRed (MapNode l AT_MAP_RED k v r) = True"
| "isRed t = False"

text \<open>\<^verbatim>\<open>t->color = c\<close>, for a pointer the source has checked or knows to be non-null.\<close>

fun setColor :: "atMapColor \<Rightarrow> ('k, 'v) atMapNode \<Rightarrow> ('k, 'v) atMapNode" where
  "setColor c (MapNode l c' k v r) = MapNode l c k v r"
| "setColor c NullNode = NullNode"

text \<open>Apply an update to the node behind \<^verbatim>\<open>t->leftChild\<close> or \<^verbatim>\<open>t->rightChild\<close>.\<close>

fun onLeft :: "(('k, 'v) atMapNode \<Rightarrow> ('k, 'v) atMapNode) \<Rightarrow> ('k, 'v) atMapNode \<Rightarrow> ('k, 'v) atMapNode" where
  "onLeft f (MapNode l c k v r) = MapNode (f l) c k v r"
| "onLeft f NullNode = NullNode"

fun onRight :: "(('k, 'v) atMapNode \<Rightarrow> ('k, 'v) atMapNode) \<Rightarrow> ('k, 'v) atMapNode \<Rightarrow> ('k, 'v) atMapNode" where
  "onRight f (MapNode l c k v r) = MapNode l c k v (f r)"
| "onRight f NullNode = NullNode"

text \<open>
  Move a pointer from a node to its left or right child: the node becomes the first
  link of the child's parent chain.
\<close>

fun downLeft :: "('k, 'v) atMapNode \<Rightarrow> ('k, 'v) parents \<Rightarrow> ('k, 'v) atMapNode \<times> ('k, 'v) parents" where
  "downLeft (MapNode l c k v r) ps = (l, LeftOf c k v r # ps)"
| "downLeft NullNode ps = (NullNode, ps)"

fun downRight :: "('k, 'v) atMapNode \<Rightarrow> ('k, 'v) parents \<Rightarrow> ('k, 'v) atMapNode \<times> ('k, 'v) parents" where
  "downRight (MapNode l c k v r) ps = (r, RightOf l c k v # ps)"
| "downRight NullNode ps = (NullNode, ps)"

subsection \<open>Rotations\<close>

text \<open>
  \<^verbatim>\<open>rotateLeft(node)\<close> and \<^verbatim>\<open>rotateRight(node)\<close> on the subtree rooted at \<^verbatim>\<open>node\<close>. The link
  from the parent (or \<^verbatim>\<open>treeRoot\<close>) to the new top is the position of the subtree in
  the parent chain, which does not change. A node without the required child is
  reported and left as it is.
\<close>

fun rotateLeft :: "('k, 'v) atMapNode \<Rightarrow> ('k, 'v) atMapNode" where
  "rotateLeft (MapNode l c k v (MapNode rl rc rk rv rr)) = MapNode (MapNode l c k v rl) rc rk rv rr"
| "rotateLeft t = t"

fun rotateRight :: "('k, 'v) atMapNode \<Rightarrow> ('k, 'v) atMapNode" where
  "rotateRight (MapNode (MapNode ll lc lk lv lr) c k v r) = MapNode ll lc lk lv (MapNode lr c k v r)"
| "rotateRight t = t"

subsection \<open>findNode and the queries\<close>

text \<open>
  \<^verbatim>\<open>findNode(node, key)\<close>: the result is the pointer to the node found (its subtree and
  its parent chain), or \<open>None\<close> for the null pointer.
\<close>

fun findNode :: "('k \<Rightarrow> 'k \<Rightarrow> int) \<Rightarrow> ('k \<Rightarrow> 'k \<Rightarrow> bool) \<Rightarrow> ('k, 'v) atMapNode \<Rightarrow> ('k, 'v) parents \<Rightarrow> 'k
    \<Rightarrow> (('k, 'v) atMapNode \<times> ('k, 'v) parents) option" where
  "findNode cmp eq NullNode ps key = None"
| "findNode cmp eq (MapNode l c k v r) ps key =
     (if eq k key then Some (MapNode l c k v r, ps)
      else if cmp key k > 0 then findNode cmp eq r (RightOf l c k v # ps) key
      else findNode cmp eq l (LeftOf c k v r # ps) key)"

definition containsKey :: "('k \<Rightarrow> 'k \<Rightarrow> int) \<Rightarrow> ('k \<Rightarrow> 'k \<Rightarrow> bool) \<Rightarrow> ('k, 'v) atMap \<Rightarrow> 'k \<Rightarrow> bool" where
  "containsKey cmp eq m key = (findNode cmp eq (treeRoot m) [] key \<noteq> None)"

definition getValue :: "('k \<Rightarrow> 'k \<Rightarrow> int) \<Rightarrow> ('k \<Rightarrow> 'k \<Rightarrow> bool) \<Rightarrow> ('k, 'v) atMap \<Rightarrow> 'k \<Rightarrow> 'v option" where
  "getValue cmp eq m key =
     (case findNode cmp eq (treeRoot m) [] key of
        Some (MapNode l c k v r, ps) \<Rightarrow> v
      | _ \<Rightarrow> None)"

definition getNumEntries :: "('k, 'v) atMap \<Rightarrow> 64 word" where
  "getNumEntries m = treeSize m"

text \<open>
  \<^verbatim>\<open>changeValue\<close> returns the old value (or null) and leaves the new value in the node
  it found.
\<close>

definition changeValue :: "('k \<Rightarrow> 'k \<Rightarrow> int) \<Rightarrow> ('k \<Rightarrow> 'k \<Rightarrow> bool) \<Rightarrow> ('k, 'v) atMap \<Rightarrow> 'k \<Rightarrow> 'v option
    \<Rightarrow> 'v option \<times> ('k, 'v) atMap" where
  "changeValue cmp eq m key newValue =
     (case findNode cmp eq (treeRoot m) [] key of
        Some (MapNode l c k v r, ps) \<Rightarrow> (v, m\<lparr>treeRoot := rootOf (MapNode l c k newValue r) ps\<rparr>)
      | _ \<Rightarrow> (None, m))"

subsection \<open>Insertion\<close>

text \<open>
  \<^verbatim>\<open>rebalanceInsert(node)\<close>. The first two equations are the early returns for a node
  without parent or without grandparent; the result is the tree below \<^verbatim>\<open>treeRoot\<close>.
\<close>

fun rebalanceInsert :: "('k, 'v) atMapNode \<Rightarrow> ('k, 'v) parents \<Rightarrow> ('k, 'v) atMapNode" where
  "rebalanceInsert node [] = node"
| "rebalanceInsert node [p] = rootOf node [p]"
| "rebalanceInsert node (p # g # rest) =
     (if \<not> isRed node then rootOf node (p # g # rest)
      else if linkColor p = AT_MAP_BLACK then rootOf node (p # g # rest)
      else
        (let grandparent = plug g (plug p node);
             nodeChildType = getChildType (p # g # rest)
         in case g of
            LeftOf gc gk gv uncle \<Rightarrow>
              if isRed uncle
              then rebalanceInsert
                     (onRight (setColor AT_MAP_BLACK)
                       (onLeft (setColor AT_MAP_BLACK) (setColor AT_MAP_RED grandparent))) rest
              else
                (let gp1 = (if nodeChildType = AT_MAP_RIGHTCHILD
                            then onLeft rotateLeft grandparent else grandparent);
                     gp2 = rotateRight gp1
                 in rootOf (onRight (setColor AT_MAP_RED) (setColor AT_MAP_BLACK gp2)) rest)
          | RightOf uncle gc gk gv \<Rightarrow>
              if isRed uncle
              then rebalanceInsert
                     (onLeft (setColor AT_MAP_BLACK)
                       (onRight (setColor AT_MAP_BLACK) (setColor AT_MAP_RED grandparent))) rest
              else
                (let gp1 = (if nodeChildType = AT_MAP_LEFTCHILD
                            then onRight rotateRight grandparent else grandparent);
                     gp2 = rotateLeft gp1
                 in rootOf (onLeft (setColor AT_MAP_RED) (setColor AT_MAP_BLACK gp2)) rest)))"

text \<open>
  The search loop of \<^verbatim>\<open>addEntry\<close>: from \<^verbatim>\<open>nodeParent\<close> down to the free place of the new
  node. The result is the parent chain of that place and the warnings emitted on the
  way. The loop never reaches a null \<^verbatim>\<open>nodeParent\<close>.
\<close>

fun insertSearch :: "('k \<Rightarrow> 'k \<Rightarrow> int) \<Rightarrow> ('k \<Rightarrow> 'k \<Rightarrow> bool) \<Rightarrow> 'k \<Rightarrow> ('k, 'v) atMapNode \<Rightarrow> ('k, 'v) parents
    \<Rightarrow> ('k, 'v) parents \<times> atNotice list" where
  "insertSearch cmp eq key NullNode ps = (ps, [])"
| "insertSearch cmp eq key (MapNode l c k v r) ps =
     (if cmp key k < 0
      then (if l = NullNode then (LeftOf c k v r # ps, [])
            else insertSearch cmp eq key l (LeftOf c k v r # ps))
      else
        (let warned = (if eq key k then [KeyCollisionWarning] else [])
         in if r = NullNode then (RightOf l c k v # ps, warned)
            else (case insertSearch cmp eq key r (RightOf l c k v # ps) of
                    (ps', ws) \<Rightarrow> (ps', warned @ ws))))"

definition addEntry :: "('k \<Rightarrow> 'k \<Rightarrow> int) \<Rightarrow> ('k \<Rightarrow> 'k \<Rightarrow> bool) \<Rightarrow> ('k, 'v) atMap \<Rightarrow> 'k \<Rightarrow> 'v option
    \<Rightarrow> bool \<times> atNotice list \<times> ('k, 'v) atMap" where
  "addEntry cmp eq m key val =
     (if containsKey cmp eq m key then (False, [], m)
      else if treeRoot m = NullNode
      then (True, [], \<lparr>treeRoot = MapNode NullNode AT_MAP_BLACK key val NullNode,
                        treeSize = treeSize m + 1\<rparr>)
      else
        (case insertSearch cmp eq key (treeRoot m) [] of
           (ps, ws) \<Rightarrow>
             (True, ws,
              \<lparr>treeRoot = setColor AT_MAP_BLACK
                            (rebalanceInsert (MapNode NullNode AT_MAP_RED key val NullNode) ps),
               treeSize = treeSize m + 1\<rparr>)))"

subsection \<open>Removal\<close>

text \<open>
  \<^verbatim>\<open>getInorderSuccessor(node)\<close>. The loop \<^verbatim>\<open>while (result->leftChild) result = result->leftChild\<close>
  is \<open>leftmost\<close>; the pointer returned is the subtree of the successor with its parent
  chain up to, and not including, \<^verbatim>\<open>node\<close>. \<open>None\<close> is the null pointer.
\<close>

fun leftmost :: "('k, 'v) atMapNode \<Rightarrow> ('k, 'v) parents \<Rightarrow> ('k, 'v) atMapNode \<times> ('k, 'v) parents" where
  "leftmost (MapNode (MapNode ll lc lk lv lr) c k v r) ps =
     leftmost (MapNode ll lc lk lv lr) (LeftOf c k v r # ps)"
| "leftmost t ps = (t, ps)"

fun getInorderSuccessor :: "('k, 'v) atMapNode \<Rightarrow> (('k, 'v) atMapNode \<times> ('k, 'v) parents) option" where
  "getInorderSuccessor (MapNode l c k v r) = (if r = NullNode then None else Some (leftmost r []))"
| "getInorderSuccessor NullNode = None"

text \<open>
  One activation of \<^verbatim>\<open>rebalanceDelete(parent, deletedChildType)\<close>. The arguments of the
  source are the first link of the chain (the parent and the side of the gap); \<open>child\<close>
  is the subtree that now fills the gap. The outcome is the finished tree, or the
  arguments of the recursive call the source makes, or a null pointer dereference
  (\<^verbatim>\<open>sibling->color\<close>, \<^verbatim>\<open>sibling->leftChild\<close> with a null sibling).
\<close>

datatype ('k, 'v) rebalanceOutcome =
    Rebalanced "('k, 'v) atMapNode"
  | Recurse "('k, 'v) atMapNode" "('k, 'v) parents"
  | NullDereference

fun rebalanceDeleteBody :: "('k, 'v) atMapNode \<Rightarrow> ('k, 'v) parents \<Rightarrow> ('k, 'v) rebalanceOutcome" where
  "rebalanceDeleteBody child [] = Rebalanced child"
| "rebalanceDeleteBody child (LeftOf pc pk pv sibling # rest) =
     (if isRed child
      then Rebalanced (rootOf (setColor AT_MAP_BLACK child) (LeftOf pc pk pv sibling # rest))
      else if sibling = NullNode then NullDereference
      else
        (case (if isRed sibling
               then downLeft (setColor AT_MAP_BLACK (onLeft (setColor AT_MAP_RED)
                                (rotateLeft (MapNode child pc pk pv sibling)))) rest
               else (MapNode child pc pk pv sibling, rest)) of
           (MapNode ch pc' pk' pv' (MapNode sl sc sk sv sr), ps) \<Rightarrow>
             if \<not> isRed sl \<and> \<not> isRed sr
             then Recurse (MapNode ch pc' pk' pv' (MapNode sl AT_MAP_RED sk sv sr)) ps
             else
               (let parent1 = (if isRed sl
                               then onRight (rotateRight \<circ> setColor AT_MAP_RED \<circ> onLeft (setColor AT_MAP_BLACK))
                                      (MapNode ch pc' pk' pv' (MapNode sl sc sk sv sr))
                               else MapNode ch pc' pk' pv' (MapNode sl sc sk sv sr));
                    top = rotateLeft parent1
                in Rebalanced (rootOf (onRight (setColor AT_MAP_BLACK)
                                 (onLeft (setColor AT_MAP_BLACK) (setColor pc' top))) ps))
         | _ \<Rightarrow> NullDereference))"
| "rebalanceDeleteBody child (RightOf sibling pc pk pv # rest) =
     (if isRed child
      then Rebalanced (rootOf (setColor AT_MAP_BLACK child) (RightOf sibling pc pk pv # rest))
      else if sibling = NullNode then NullDereference
      else
        (case (if isRed sibling
               then downRight (setColor AT_MAP_BLACK (onRight (setColor AT_MAP_RED)
                                 (rotateRight (MapNode sibling pc pk pv child)))) rest
               else (MapNode sibling pc pk pv child, rest)) of
           (MapNode (MapNode sl sc sk sv sr) pc' pk' pv' ch, ps) \<Rightarrow>
             if \<not> isRed sl \<and> \<not> isRed sr
             then Recurse (MapNode (MapNode sl AT_MAP_RED sk sv sr) pc' pk' pv' ch) ps
             else
               (let parent1 = (if isRed sr
                               then onLeft (rotateLeft \<circ> setColor AT_MAP_RED \<circ> onRight (setColor AT_MAP_BLACK))
                                      (MapNode (MapNode sl sc sk sv sr) pc' pk' pv' ch)
                               else MapNode (MapNode sl sc sk sv sr) pc' pk' pv' ch);
                    top = rotateRight parent1
                in Rebalanced (rootOf (onLeft (setColor AT_MAP_BLACK)
                                 (onRight (setColor AT_MAP_BLACK) (setColor pc' top))) ps))
         | _ \<Rightarrow> NullDereference))"

text \<open>
  The recursion of \<^verbatim>\<open>rebalanceDelete\<close> decreases the number of ancestors, except after the
  rotation for a red sibling, where the next activation starts at a red node and stops
  at once.
\<close>

fun rebalanceMeasure :: "('k, 'v) atMapNode \<times> ('k, 'v) parents \<Rightarrow> nat" where
  "rebalanceMeasure (child, ps) = 2 * length ps + (if isRed child then 0 else 1)"

function rebalanceDelete :: "('k, 'v) atMapNode \<Rightarrow> ('k, 'v) parents \<Rightarrow> ('k, 'v) atMapNode option" where
  "rebalanceDelete child ps =
     (case rebalanceDeleteBody child ps of
        Rebalanced t \<Rightarrow> Some t
      | Recurse child' ps' \<Rightarrow> rebalanceDelete child' ps'
      | NullDereference \<Rightarrow> None)"
  by pat_completeness auto
termination
proof (relation "measure rebalanceMeasure")
  show "wf (measure rebalanceMeasure)" by simp
next
  fix child :: "('k, 'v) atMapNode" and ps :: "('k, 'v) parents" and child' ps'
  assume step: "rebalanceDeleteBody child ps = Recurse child' ps'"
  have "rebalanceMeasure (child', ps') < rebalanceMeasure (child, ps)"
  proof (cases ps)
    case Nil
    with step show ?thesis by simp
  next
    case (Cons p rest)
    show ?thesis
    proof (cases p)
      case (LeftOf pc pk pv sibling)
      with Cons step show ?thesis
        by (cases sibling; cases pc)
           (auto split: if_splits atMapNode.splits atMapColor.splits prod.splits)
    next
      case (RightOf sibling pc pk pv)
      with Cons step show ?thesis
        by (cases sibling; cases pc)
           (auto split: if_splits atMapNode.splits atMapColor.splits prod.splits)
    qed
  qed
  then show "((child', ps'), child, ps) \<in> measure rebalanceMeasure" by simp
qed

declare rebalanceDelete.simps [simp del]

text \<open>
  \<^verbatim>\<open>deleteNode(node)\<close>: the three cases on the number of children. In the third case the
  key and value of \<^verbatim>\<open>node\<close> and of its successor are swapped and the function calls
  itself on the successor, whose parent chain runs through the right child of \<^verbatim>\<open>node\<close>.
  The result is the tree below \<^verbatim>\<open>treeRoot\<close>, or \<open>None\<close> for a null pointer dereference.
\<close>

fun twoChildren :: "('k, 'v) atMapNode \<times> ('k, 'v) parents \<Rightarrow> nat" where
  "twoChildren (MapNode (MapNode ll lc lk lv lr) c k v (MapNode rl rc rk rv rr), ps) = 1"
| "twoChildren (t, ps) = 0"

function deleteNode :: "('k, 'v) atMapNode \<Rightarrow> ('k, 'v) parents \<Rightarrow> ('k, 'v) atMapNode option" where
  "deleteNode NullNode ps = None"
| "deleteNode (MapNode l c k v r) ps =
     (if l = NullNode \<and> r = NullNode
      then (if c = AT_MAP_BLACK then rebalanceDelete NullNode ps else Some (rootOf NullNode ps))
      else if l = NullNode \<or> r = NullNode
      then
        (let child = (if l \<noteq> NullNode then l else r)
         in if c = AT_MAP_BLACK then rebalanceDelete child ps else Some (rootOf child ps))
      else
        (case getInorderSuccessor (MapNode l c k v r) of
           Some (MapNode sl sc sk sv sr, sp) \<Rightarrow>
             deleteNode (MapNode sl sc k v sr) (sp @ RightOf l c sk sv # ps)
         | _ \<Rightarrow> None))"
  by pat_completeness auto
termination
proof (relation "measure twoChildren")
  show "wf (measure twoChildren)" by simp
next
  fix l :: "('k, 'v) atMapNode" and c k v r and ps :: "('k, 'v) parents"
    and x2 x y sl sc sk sv sr
  assume two: "\<not> (l = NullNode \<and> r = NullNode)" "\<not> (l = NullNode \<or> r = NullNode)"
    and succ: "getInorderSuccessor (MapNode l c k v r) = Some x2" "(x, y) = x2"
      "x = MapNode sl sc sk sv sr"
  have no_left: "sl' = NullNode" if "leftmost t qs = (MapNode sl' sc' sk' sv' sr', sp')"
    for t :: "('k, 'v) atMapNode" and qs sl' sc' sk' sv' sr' sp'
    using that by (induction t qs rule: leftmost.induct) auto
  from two succ have "leftmost r [] = (MapNode sl sc sk sv sr, y)" by auto
  then have "sl = NullNode" by (rule no_left)
  moreover from two obtain ll lc lk lv lr rl rc rk rv rr
    where "l = MapNode ll lc lk lv lr" "r = MapNode rl rc rk rv rr"
    by (cases l; cases r) auto
  ultimately show "((MapNode sl sc k v sr, y @ RightOf l c sk sv # ps), MapNode l c k v r, ps)
      \<in> measure twoChildren" by simp
qed

declare deleteNode.simps [simp del]

text \<open>
  \<^verbatim>\<open>removeNode\<close> repeats \<^verbatim>\<open>deleteNode\<close> statement by statement and differs only in not
  destroying the key and value objects of the unlinked node, which the tree does not
  show.
\<close>

definition removeNode :: "('k, 'v) atMapNode \<Rightarrow> ('k, 'v) parents \<Rightarrow> ('k, 'v) atMapNode option" where
  "removeNode node ps = deleteNode node ps"

definition deleteEntry :: "('k \<Rightarrow> 'k \<Rightarrow> int) \<Rightarrow> ('k \<Rightarrow> 'k \<Rightarrow> bool) \<Rightarrow> ('k, 'v) atMap \<Rightarrow> 'k
    \<Rightarrow> (bool \<times> ('k, 'v) atMap) option" where
  "deleteEntry cmp eq m key =
     (case findNode cmp eq (treeRoot m) [] key of
        None \<Rightarrow> Some (False, m)
      | Some (targetNode, ps) \<Rightarrow>
          (case deleteNode targetNode ps of
             None \<Rightarrow> None
           | Some root \<Rightarrow>
               Some (True, \<lparr>treeRoot = setColor AT_MAP_BLACK root, treeSize = treeSize m - 1\<rparr>)))"

definition removeEntry :: "('k \<Rightarrow> 'k \<Rightarrow> int) \<Rightarrow> ('k \<Rightarrow> 'k \<Rightarrow> bool) \<Rightarrow> ('k, 'v) atMap \<Rightarrow> 'k
    \<Rightarrow> ('v option \<times> ('k, 'v) atMap) option" where
  "removeEntry cmp eq m key =
     (case findNode cmp eq (treeRoot m) [] key of
        None \<Rightarrow> Some (None, m)
      | Some (NullNode, ps) \<Rightarrow> None
      | Some (MapNode l c k v r, ps) \<Rightarrow>
          (case removeNode (MapNode l c k v r) ps of
             None \<Rightarrow> None
           | Some root \<Rightarrow>
               Some (v, \<lparr>treeRoot = setColor AT_MAP_BLACK root, treeSize = treeSize m - 1\<rparr>)))"

definition clear :: "('k, 'v) atMap \<Rightarrow> ('k, 'v) atMap" where
  "clear m = (if treeRoot m = NullNode then m else \<lparr>treeRoot = NullNode, treeSize = 0\<rparr>)"

subsection \<open>Sorted traversal\<close>

text \<open>
  Modelled from the spec: the \<^verbatim>\<open>atList\<close> collaborator is not part of the sources; it is an
  ordered growable sequence with an \<^verbatim>\<open>append\<close> operation and a \<^verbatim>\<open>length\<close> query. A list
  pointer is \<open>None\<close> when the caller omits that output, \<^verbatim>\<open>addEntry\<close> on a list appends at
  its end, and \<^verbatim>\<open>getNumEntries\<close> is its length as an unsigned long.
\<close>

definition listAddEntry :: "'a list option \<Rightarrow> 'a \<Rightarrow> 'a list option" where
  "listAddEntry xs x = (case xs of None \<Rightarrow> None | Some ys \<Rightarrow> Some (ys @ [x]))"

definition listNumEntries :: "'a list \<Rightarrow> 64 word" where
  "listNumEntries xs = of_nat (length xs)"

fun fillLists :: "('k, 'v) atMapNode \<Rightarrow> 'k list option \<Rightarrow> 'v option list option
    \<Rightarrow> 'k list option \<times> 'v option list option" where
  "fillLists NullNode keyList valueList = (keyList, valueList)"
| "fillLists (MapNode l c k v r) keyList valueList =
     (case fillLists l keyList valueList of
        (keyList1, valueList1) \<Rightarrow> fillLists r (listAddEntry keyList1 k) (listAddEntry valueList1 v))"

definition getSortedList :: "('k, 'v) atMap \<Rightarrow> 'k list option \<Rightarrow> 'v option list option
    \<Rightarrow> 'k list option \<times> 'v option list option \<times> atNotice list" where
  "getSortedList m keyList valueList =
     (if treeSize m = 0 then (keyList, valueList, [])
      else
        (case fillLists (treeRoot m) keyList valueList of
           (keyList', valueList') \<Rightarrow>
             (keyList', valueList',
              (case keyList' of
                 Some ks \<Rightarrow>
                   if listNumEntries ks \<noteq> treeSize m
                   then [MapInconsistencyError, SizeMismatchError] else []
               | None \<Rightarrow>
                   (case valueList' of
                      Some vs \<Rightarrow>
                        if listNumEntries vs \<noteq> treeSize m
                        then [MapInconsistencyError, SizeMismatchError] else []
                    | None \<Rightarrow> [])))))"

section \<open>Invariants\<close>

text \<open>
  The contract of the key objects. \<open>compareIsOrder\<close>: the sign of \<^verbatim>\<open>compare\<close> is that of an
  ordering of the keys in which ties are allowed. \<open>equalsAgrees\<close>: two keys are equal
  for \<^verbatim>\<open>equals\<close> exactly when \<^verbatim>\<open>compare\<close> gives zero.
\<close>

definition compareIsOrder :: "('k \<Rightarrow> 'k \<Rightarrow> int) \<Rightarrow> bool" where
  "compareIsOrder cmp =
     ((\<forall>a b. (cmp a b < 0) = (0 < cmp b a)) \<and>
      (\<forall>a b c. cmp a b \<le> 0 \<longrightarrow> cmp b c \<le> 0 \<longrightarrow> cmp a c \<le> 0))"

definition equalsAgrees :: "('k \<Rightarrow> 'k \<Rightarrow> int) \<Rightarrow> ('k \<Rightarrow> 'k \<Rightarrow> bool) \<Rightarrow> bool" where
  "equalsAgrees cmp eq = (\<forall>a b. eq a b = (cmp a b = 0))"

fun inorderKeys :: "('k, 'v) atMapNode \<Rightarrow> 'k list" where
  "inorderKeys NullNode = []"
| "inorderKeys (MapNode l c k v r) = inorderKeys l @ k # inorderKeys r"

fun inorderValues :: "('k, 'v) atMapNode \<Rightarrow> 'v option list" where
  "inorderValues NullNode = []"
| "inorderValues (MapNode l c k v r) = inorderValues l @ v # inorderValues r"

fun numNodes :: "('k, 'v) atMapNode \<Rightarrow> nat" where
  "numNodes NullNode = 0"
| "numNodes (MapNode l c k v r) = numNodes l + 1 + numNodes r"

text \<open>
  Invariant 1: the keys of a left subtree compare less than the key of the node, the
  keys of a right subtree compare greater or equal.
\<close>

fun bstOrdering :: "('k \<Rightarrow> 'k \<Rightarrow> int) \<Rightarrow> ('k, 'v) atMapNode \<Rightarrow> bool" where
  "bstOrdering cmp NullNode = True"
| "bstOrdering cmp (MapNode l c k v r) =
     ((\<forall>x \<in> set (inorderKeys l). cmp x k < 0) \<and> (\<forall>y \<in> set (inorderKeys r). 0 \<le> cmp y k) \<and>
      bstOrdering cmp l \<and> bstOrdering cmp r)"

text \<open>Invariant 2: no two nodes hold keys that are equal for \<^verbatim>\<open>equals\<close>.\<close>

definition keyUniqueness :: "('k \<Rightarrow> 'k \<Rightarrow> bool) \<Rightarrow> ('k, 'v) atMapNode \<Rightarrow> bool" where
  "keyUniqueness eq t = sorted_wrt (\<lambda>a b. \<not> eq a b \<and> \<not> eq b a) (inorderKeys t)"

text \<open>Invariant 3: the root, if there is one, is black.\<close>

definition rootBlack :: "('k, 'v) atMapNode \<Rightarrow> bool" where
  "rootBlack t = (\<not> isRed t)"

text \<open>Invariant 4: a red node has no red child.\<close>

fun noRedRed :: "('k, 'v) atMapNode \<Rightarrow> bool" where
  "noRedRed NullNode = True"
| "noRedRed (MapNode l c k v r) =
     ((c = AT_MAP_RED \<longrightarrow> \<not> isRed l \<and> \<not> isRed r) \<and> noRedRed l \<and> noRedRed r)"

text \<open>
  Invariant 5: every path from a node down to an empty child position passes through
  the same number of black nodes; \<open>blackHeight\<close> counts them along the leftmost path.
\<close>

fun blackHeight :: "('k, 'v) atMapNode \<Rightarrow> nat" where
  "blackHeight NullNode = 0"
| "blackHeight (MapNode l c k v r) = blackHeight l + (if c = AT_MAP_BLACK then 1 else 0)"

fun blackBalanced :: "('k, 'v) atMapNode \<Rightarrow> bool" where
  "blackBalanced NullNode = True"
| "blackBalanced (MapNode l c k v r) =
     (blackHeight l = blackHeight r \<and> blackBalanced l \<and> blackBalanced r)"

definition redBlackInvariants :: "('k \<Rightarrow> 'k \<Rightarrow> int) \<Rightarrow> ('k \<Rightarrow> 'k \<Rightarrow> bool) \<Rightarrow> ('k, 'v) atMap \<Rightarrow> bool" where
  "redBlackInvariants cmp eq m =
     (bstOrdering cmp (treeRoot m) \<and> keyUniqueness eq (treeRoot m) \<and> rootBlack (treeRoot m) \<and>
      noRedRed (treeRoot m) \<and> blackBalanced (treeRoot m))"

text \<open>Invariant 6: the counter is the number of nodes.\<close>

definition sizeTracked :: "('k, 'v) atMap \<Rightarrow> bool" where
  "sizeTracked m = (unat (treeSize m) = numNodes (treeRoot m))"

text \<open>A sequence of \<^verbatim>\<open>addEntry\<close> calls, keeping the map of each call for the next.\<close>

fun addEntries :: "('k \<Rightarrow> 'k \<Rightarrow> int) \<Rightarrow> ('k \<Rightarrow> 'k \<Rightarrow> bool) \<Rightarrow> ('k, 'v) atMap \<Rightarrow> ('k \<times> 'v option) list
    \<Rightarrow> ('k, 'v) atMap" where
  "addEntries cmp eq m [] = m"
| "addEntries cmp eq m ((key, val) # rest) =
     addEntries cmp eq (snd (snd (addEntry cmp eq m key val))) rest"

section \<open>Definitions used in the statements and proofs\<close>

fun keysBefore :: "('k, 'v) parents \<Rightarrow> 'k list" where
  "keysBefore [] = []"
| "keysBefore (LeftOf c k v r # ps) = keysBefore ps"
| "keysBefore (RightOf l c k v # ps) = keysBefore ps @ inorderKeys l @ [k]"

fun keysAfter :: "('k, 'v) parents \<Rightarrow> 'k list" where
  "keysAfter [] = []"
| "keysAfter (LeftOf c k v r # ps) = k # inorderKeys r @ keysAfter ps"
| "keysAfter (RightOf l c k v # ps) = keysAfter ps"

text \<open>
  The black height along the leftmost path speaks for every path: \<open>blackCounts\<close> lists
  the number of black nodes on each path from the root to an empty child position.
\<close>

fun blackCounts :: "('k, 'v) atMapNode \<Rightarrow> nat list" where
  "blackCounts NullNode = [0]"
| "blackCounts (MapNode l c k v r) =
     map (\<lambda>n. n + (if c = AT_MAP_BLACK then 1 else 0)) (blackCounts l @ blackCounts r)"

definition keysAscending :: "('k \<Rightarrow> 'k \<Rightarrow> int) \<Rightarrow> 'k list \<Rightarrow> bool" where
  "keysAscending cmp ks = sorted_wrt (\<lambda>a b. cmp a b < 0) ks"

text \<open>
  Keys that are pairwise distinct for \<^verbatim>\<open>compare\<close> and for \<^verbatim>\<open>equals\<close>, whatever the order of
  the two arguments.
\<close>

definition keysDistinct :: "('k \<Rightarrow> 'k \<Rightarrow> int) \<Rightarrow> ('k \<Rightarrow> 'k \<Rightarrow> bool) \<Rightarrow> 'k list \<Rightarrow> bool" where
  "keysDistinct cmp eq ks =
     sorted_wrt (\<lambda>a b. cmp a b \<noteq> 0 \<and> cmp b a \<noteq> 0 \<and> \<not> eq a b \<and> \<not> eq b a) ks"

fun inorderEntries :: "('k, 'v) atMapNode \<Rightarrow> ('k \<times> 'v option) list" where
  "inorderEntries NullNode = []"
| "inorderEntries (MapNode l c k v r) = inorderEntries l @ (k, v) # inorderEntries r"

text \<open>
  A key type whose \<^verbatim>\<open>compare\<close> looks at the first component of a pair only, while
  \<^verbatim>\<open>equals\<close> looks at both: an ordering with ties between keys that are not equal.
\<close>

definition compareFirst :: "nat \<times> nat \<Rightarrow> nat \<times> nat \<Rightarrow> int" where
  "compareFirst a b = int (fst a) - int (fst b)"

definition equalsBoth :: "nat \<times> nat \<Rightarrow> nat \<times> nat \<Rightarrow> bool" where
  "equalsBoth a b = (a = b)"

text \<open>The map that two \<^verbatim>\<open>addEntry\<close> calls build from two keys that tie.\<close>

definition tiedMap :: "(nat \<times> nat, nat) atMap" where
  "tiedMap = addEntries compareFirst equalsBoth emptyMap [((1, 0), Some 10), ((1, 1), Some 11)]"

fun valuesBefore :: "('k, 'v) parents \<Rightarrow> ('k \<times> 'v option) list" where
  "valuesBefore [] = []"
| "valuesBefore (LeftOf c k v r # ps) = valuesBefore ps"
| "valuesBefore (RightOf l c k v # ps) = valuesBefore ps @ inorderEntries l @ [(k, v)]"

fun valuesAfter :: "('k, 'v) parents \<Rightarrow> ('k \<times> 'v option) list" where
  "valuesAfter [] = []"
| "valuesAfter (LeftOf c k v r # ps) = (k, v) # inorderEntries r @ valuesAfter ps"
| "valuesAfter (RightOf l c k v # ps) = valuesAfter ps"

text \<open>The tree without its values: the shape, the colours and the keys.\<close>

fun dropValues :: "('k, 'v) atMapNode \<Rightarrow> ('k, 'v) atMapNode" where
  "dropValues NullNode = NullNode"
| "dropValues (MapNode l c k v r) = MapNode (dropValues l) c k None (dropValues r)"

fun leftLinks :: "('k, 'v) parents \<Rightarrow> bool" where
  "leftLinks [] = True"
| "leftLinks (LeftOf c k v r # ps) = leftLinks ps"
| "leftLinks (RightOf l c k v # ps) = False"

text \<open>
  What one activation does once the sibling is known to exist and the gap is not
  filled by a red node: \<open>ch\<close> fills the gap, the parent has colour \<open>pc\<close>, the sibling has
  children \<open>sl\<close> and \<open>sr\<close>.
\<close>

definition gapOnLeft :: "('k, 'v) atMapNode \<Rightarrow> atMapColor \<Rightarrow> 'k \<Rightarrow> 'v option \<Rightarrow> ('k, 'v) atMapNode
    \<Rightarrow> 'k \<Rightarrow> 'v option \<Rightarrow> ('k, 'v) atMapNode \<Rightarrow> ('k, 'v) parents \<Rightarrow> ('k, 'v) rebalanceOutcome" where
  "gapOnLeft ch pc pk pv sl sk sv sr ps =
     (if \<not> isRed sl \<and> \<not> isRed sr
      then Recurse (MapNode ch pc pk pv (MapNode sl AT_MAP_RED sk sv sr)) ps
      else
        (case sl of
           MapNode sll AT_MAP_RED slk slv slr \<Rightarrow>
             Rebalanced (rootOf (MapNode (MapNode ch AT_MAP_BLACK pk pv sll) pc slk slv
                                   (MapNode slr AT_MAP_BLACK sk sv sr)) ps)
         | _ \<Rightarrow>
             Rebalanced (rootOf (MapNode (MapNode ch AT_MAP_BLACK pk pv sl) pc sk sv
                                   (setColor AT_MAP_BLACK sr)) ps)))"

definition gapOnRight :: "('k, 'v) atMapNode \<Rightarrow> atMapColor \<Rightarrow> 'k \<Rightarrow> 'v option \<Rightarrow> ('k, 'v) atMapNode
    \<Rightarrow> 'k \<Rightarrow> 'v option \<Rightarrow> ('k, 'v) atMapNode \<Rightarrow> ('k, 'v) parents \<Rightarrow> ('k, 'v) rebalanceOutcome" where
  "gapOnRight ch pc pk pv sl sk sv sr ps =
     (if \<not> isRed sl \<and> \<not> isRed sr
      then Recurse (MapNode (MapNode sl AT_MAP_RED sk sv sr) pc pk pv ch) ps
      else
        (case sr of
           MapNode srl AT_MAP_RED srk srv srr \<Rightarrow>
             Rebalanced (rootOf (MapNode (MapNode sl AT_MAP_BLACK sk sv srl) pc srk srv
                                   (MapNode srr AT_MAP_BLACK pk pv ch)) ps)
         | _ \<Rightarrow>
             Rebalanced (rootOf (MapNode (setColor AT_MAP_BLACK sl) pc sk sv
                                   (MapNode sr AT_MAP_BLACK pk pv ch)) ps)))"

text \<open>
  The situation \<^verbatim>\<open>rebalanceDelete\<close> is called in: the subtree \<open>child\<close> is one black node
  short of what its place in the tree asks for. The place is described by a tree \<open>t0\<close>
  that fits there.
\<close>

definition deficit :: "('k, 'v) atMapNode \<Rightarrow> ('k, 'v) parents \<Rightarrow> bool" where
  "deficit child ps =
     (blackBalanced child \<and> noRedRed (setColor AT_MAP_BLACK child) \<and>
      (\<exists>t0. noRedRed (rootOf t0 ps) \<and> blackBalanced (rootOf t0 ps) \<and>
            blackHeight t0 = Suc (blackHeight child) \<and> (isRed child \<or> \<not> isRed t0)))"

definition outcomeOk :: "('k, 'v) rebalanceOutcome \<Rightarrow> bool" where
  "outcomeOk out =
     (case out of
        Rebalanced t \<Rightarrow> noRedRed (setColor AT_MAP_BLACK t) \<and> blackBalanced t
      | Recurse child ps \<Rightarrow> deficit child ps
      | NullDereference \<Rightarrow> False)"

fun outcomeEntries :: "('k, 'v) rebalanceOutcome \<Rightarrow> ('k \<times> 'v option) list option" where
  "outcomeEntries (Rebalanced t) = Some (inorderEntries t)"
| "outcomeEntries (Recurse child ps) = Some (inorderEntries (rootOf child ps))"
| "outcomeEntries NullDereference = None"

text \<open>The map that four \<^verbatim>\<open>addEntry\<close> calls build from keys with ties under \<^verbatim>\<open>compare\<close>.\<close>

definition tiedMap4 :: "(nat \<times> nat, nat) atMap" where
  "tiedMap4 = addEntries compareFirst equalsBoth emptyMap
     [((1, 0), Some 10), ((0, 0), Some 0), ((1, 1), Some 11), ((2, 0), Some 20)]"

text \<open>
  A key type whose \<^verbatim>\<open>compare\<close> is a total order without ties and whose \<^verbatim>\<open>equals\<close> identifies
  keys that \<^verbatim>\<open>compare\<close> tells apart: integers ordered by value, equal when their absolute
  values are. \<open>foldedMap\<close> is the map that \<^verbatim>\<open>addEntry\<close> builds from the keys 2 and 5.
\<close>

definition compareSigned :: "int \<Rightarrow> int \<Rightarrow> int" where
  "compareSigned a b = a - b"

definition equalsAbs :: "int \<Rightarrow> int \<Rightarrow> bool" where
  "equalsAbs a b = (\<bar>a\<bar> = \<bar>b\<bar>)"

definition foldedMap :: "(int, nat) atMap" where
  "foldedMap = addEntries compareSigned equalsAbs emptyMap [(2, Some 20), (5, Some 50)]"

section \<open>Basic facts\<close>

subsection \<open>Consequences of the ordering contract\<close>

lemma cmp_flip: "compareIsOrder cmp \<Longrightarrow> (cmp a b < 0) = (0 < cmp b a)"
  by (simp add: compareIsOrder_def)

lemma cmp_le_flip: "compareIsOrder cmp \<Longrightarrow> (cmp a b \<le> 0) = (0 \<le> cmp b a)"
  using cmp_flip [of cmp b a] by auto

lemma cmp_zero_flip: "compareIsOrder cmp \<Longrightarrow> (cmp a b = 0) = (cmp b a = 0)"
  using cmp_flip [of cmp a b] cmp_flip [of cmp b a] by auto

lemma cmp_self: "compareIsOrder cmp \<Longrightarrow> cmp a a = 0"
  using cmp_flip [of cmp a a] by auto

lemma cmp_le_trans: "compareIsOrder cmp \<Longrightarrow> cmp a b \<le> 0 \<Longrightarrow> cmp b c \<le> 0 \<Longrightarrow> cmp a c \<le> 0"
  unfolding compareIsOrder_def by blast

lemma cmp_lt_le_trans:
  assumes "compareIsOrder cmp" "cmp a b < 0" "cmp b c \<le> 0"
  shows "cmp a c < 0"
proof (rule ccontr)
  assume "\<not> cmp a c < 0"
  then have "cmp c a \<le> 0" using cmp_le_flip [OF assms(1), of c a] by simp
  with assms(3) have "cmp b a \<le> 0" using cmp_le_trans [OF assms(1)] by blast
  then show False using assms(2) cmp_flip [OF assms(1), of a b] by simp
qed

lemma cmp_le_lt_trans:
  assumes "compareIsOrder cmp" "cmp a b \<le> 0" "cmp b c < 0"
  shows "cmp a c < 0"
proof (rule ccontr)
  assume "\<not> cmp a c < 0"
  then have "cmp c a \<le> 0" using cmp_le_flip [OF assms(1), of c a] by simp
  with assms(2) have "cmp c b \<le> 0" using cmp_le_trans [OF assms(1)] by blast
  then show False using assms(3) cmp_flip [OF assms(1), of b c] by simp
qed

lemma cmp_lt_trans: "compareIsOrder cmp \<Longrightarrow> cmp a b < 0 \<Longrightarrow> cmp b c < 0 \<Longrightarrow> cmp a c < 0"
  using cmp_lt_le_trans [of cmp a b c] by simp

subsection \<open>Trees below a parent chain\<close>

lemma inorderKeys_rootOf:
  "inorderKeys (rootOf t ps) = keysBefore ps @ inorderKeys t @ keysAfter ps"
proof (induction ps arbitrary: t)
  case Nil
  show ?case by simp
next
  case (Cons p ps)
  show ?case by (cases p) (simp_all add: Cons.IH)
qed

lemma rootOf_append: "rootOf t (ps @ qs) = rootOf (rootOf t ps) qs"
  by (induction ps arbitrary: t) simp_all

lemma numNodes_length: "numNodes t = length (inorderKeys t)"
  by (induction t) simp_all

lemma length_inorderValues: "length (inorderValues t) = length (inorderKeys t)"
  by (induction t) simp_all

subsection \<open>Colours and black heights below a parent chain\<close>

lemma blackBalanced_rootOf_sub: "blackBalanced (rootOf t ps) \<Longrightarrow> blackBalanced t"
proof (induction ps arbitrary: t)
  case Nil
  then show ?case by simp
next
  case (Cons p ps)
  then have "blackBalanced (plug p t)" by simp
  then show ?case by (cases p) simp_all
qed

lemma noRedRed_rootOf_sub: "noRedRed (rootOf t ps) \<Longrightarrow> noRedRed t"
proof (induction ps arbitrary: t)
  case Nil
  then show ?case by simp
next
  case (Cons p ps)
  then have "noRedRed (plug p t)" by simp
  then show ?case by (cases p) simp_all
qed

lemma blackHeight_plug:
  assumes "blackHeight t = blackHeight t'" "blackBalanced (plug p t)"
  shows "blackHeight (plug p t') = blackHeight (plug p t)"
proof (cases p)
  case (LeftOf c k v r)
  with assms(1) show ?thesis by simp
next
  case (RightOf l c k v)
  then show ?thesis by simp
qed

lemma blackBalanced_plug:
  assumes "blackHeight t = blackHeight t'" "blackBalanced t'" "blackBalanced (plug p t)"
  shows "blackBalanced (plug p t')"
proof (cases p)
  case (LeftOf c k v r)
  with assms(3) have "blackHeight t = blackHeight r" "blackBalanced r" by simp_all
  with assms(1,2) LeftOf show ?thesis by simp
next
  case (RightOf l c k v)
  with assms(3) have "blackHeight l = blackHeight t" "blackBalanced l" by simp_all
  with assms(1,2) RightOf show ?thesis by simp
qed

lemma blackBalanced_rootOf_replace:
  "blackHeight t = blackHeight t' \<Longrightarrow> blackBalanced t' \<Longrightarrow> blackBalanced (rootOf t ps) \<Longrightarrow>
   blackBalanced (rootOf t' ps)"
proof (induction ps arbitrary: t t')
  case Nil
  then show ?case by simp
next
  case (Cons p ps)
  from Cons.prems(3) have sub: "blackBalanced (plug p t)"
    using blackBalanced_rootOf_sub [of "plug p t" ps] by simp
  have h: "blackHeight (plug p t) = blackHeight (plug p t')"
    using blackHeight_plug [OF Cons.prems(1) sub] by simp
  have b: "blackBalanced (plug p t')"
    by (rule blackBalanced_plug [OF Cons.prems(1,2) sub])
  from Cons.prems(3) have "blackBalanced (rootOf (plug p t) ps)" by simp
  from Cons.IH [OF h b this] show ?case by simp
qed

lemma blackHeight_rootOf_replace:
  "blackHeight t = blackHeight t' \<Longrightarrow> blackBalanced (rootOf t ps) \<Longrightarrow>
   blackHeight (rootOf t' ps) = blackHeight (rootOf t ps)"
proof (induction ps arbitrary: t t')
  case Nil
  then show ?case by simp
next
  case (Cons p ps)
  from Cons.prems(2) have sub: "blackBalanced (plug p t)"
    using blackBalanced_rootOf_sub [of "plug p t" ps] by simp
  have h: "blackHeight (plug p t) = blackHeight (plug p t')"
    using blackHeight_plug [OF Cons.prems(1) sub] by simp
  from Cons.prems(2) have "blackBalanced (rootOf (plug p t) ps)" by simp
  from Cons.IH [OF h this] show ?case by simp
qed

lemma blackHeight_in_blackCounts: "blackHeight t \<in> set (blackCounts t)"
  by (induction t) auto

lemma blackBalanced_all_paths:
  "blackBalanced t = (\<forall>n \<in> set (blackCounts t). n = blackHeight t)"
proof (induction t)
  case NullNode
  show ?case by simp
next
  case (MapNode l c k v r)
  show ?case
  proof
    assume "blackBalanced (MapNode l c k v r)"
    with MapNode.IH show "\<forall>n \<in> set (blackCounts (MapNode l c k v r)).
        n = blackHeight (MapNode l c k v r)" by auto
  next
    assume a: "\<forall>n \<in> set (blackCounts (MapNode l c k v r)).
        n = blackHeight (MapNode l c k v r)"
    have l: "\<forall>n \<in> set (blackCounts l). n = blackHeight l"
    proof
      fix n assume "n \<in> set (blackCounts l)"
      then have "n + (if c = AT_MAP_BLACK then 1 else 0) \<in> set (blackCounts (MapNode l c k v r))"
        by simp
      with a show "n = blackHeight l" by fastforce
    qed
    have r: "\<forall>n \<in> set (blackCounts r). n = blackHeight l"
    proof
      fix n assume "n \<in> set (blackCounts r)"
      then have "n + (if c = AT_MAP_BLACK then 1 else 0) \<in> set (blackCounts (MapNode l c k v r))"
        by simp
      with a show "n = blackHeight l" by fastforce
    qed
    from r blackHeight_in_blackCounts [of r] have "blackHeight r = blackHeight l" by blast
    with l r MapNode.IH show "blackBalanced (MapNode l c k v r)" by simp
  qed
qed

lemma isRed_plug: "isRed (plug p t) = (linkColor p = AT_MAP_RED)"
  by (cases p; cases "linkColor p") auto

lemma noRedRed_plug:
  "noRedRed t' \<Longrightarrow> (isRed t' \<longrightarrow> isRed t) \<Longrightarrow> noRedRed (plug p t) \<Longrightarrow> noRedRed (plug p t')"
  by (cases p) auto

lemma noRedRed_rootOf_replace:
  "noRedRed t' \<Longrightarrow> (isRed t' \<longrightarrow> isRed t) \<Longrightarrow> noRedRed (rootOf t ps) \<Longrightarrow>
   noRedRed (rootOf t' ps)"
proof (induction ps arbitrary: t t')
  case Nil
  then show ?case by simp
next
  case (Cons p ps)
  from Cons.prems have sub: "noRedRed (plug p t)"
    using noRedRed_rootOf_sub [of "plug p t" ps] by simp
  show ?case
    using Cons.IH [of "plug p t'" "plug p t"] Cons.prems sub
    by (simp add: noRedRed_plug isRed_plug)
qed

lemma isRed_rootOf_replace:
  "ps \<noteq> [] \<or> isRed t' = isRed t \<Longrightarrow> isRed (rootOf t' ps) = isRed (rootOf t ps)"
proof (induction ps arbitrary: t t')
  case Nil
  then show ?case by simp
next
  case (Cons p ps)
  show ?case using Cons.IH [of "plug p t'" "plug p t"] by (simp add: isRed_plug)
qed

lemma noRedRed_setColor_black: "noRedRed t \<Longrightarrow> noRedRed (setColor AT_MAP_BLACK t)"
  by (cases t) simp_all

lemma blackBalanced_setColor: "blackBalanced (setColor c t) = blackBalanced t"
  by (cases t) simp_all

lemma inorderKeys_setColor: "inorderKeys (setColor c t) = inorderKeys t"
  by (cases t) simp_all

lemma isRed_setColor_black: "\<not> isRed (setColor AT_MAP_BLACK t)"
  by (cases t) simp_all

section \<open>Insertion keeps the invariants\<close>

subsection \<open>rebalanceInsert, case by case\<close>

lemma rebalanceInsert_black_parent:
  "linkColor p = AT_MAP_BLACK \<Longrightarrow> rebalanceInsert node (p # ps) = rootOf node (p # ps)"
  by (cases ps) simp_all

lemma rebalanceInsert_LL:
  "rebalanceInsert (MapNode a AT_MAP_RED k v b)
     (LeftOf AT_MAP_RED pk pv pr # LeftOf gc gk gv u # rest) =
   (if isRed u
    then rebalanceInsert
           (MapNode (MapNode (MapNode a AT_MAP_RED k v b) AT_MAP_BLACK pk pv pr) AT_MAP_RED gk gv
              (setColor AT_MAP_BLACK u)) rest
    else rootOf (MapNode (MapNode a AT_MAP_RED k v b) AT_MAP_BLACK pk pv
                   (MapNode pr AT_MAP_RED gk gv u)) rest)"
  by simp

lemma rebalanceInsert_LR:
  "rebalanceInsert (MapNode a AT_MAP_RED k v b)
     (RightOf pl AT_MAP_RED pk pv # LeftOf gc gk gv u # rest) =
   (if isRed u
    then rebalanceInsert
           (MapNode (MapNode pl AT_MAP_BLACK pk pv (MapNode a AT_MAP_RED k v b)) AT_MAP_RED gk gv
              (setColor AT_MAP_BLACK u)) rest
    else rootOf (MapNode (MapNode pl AT_MAP_RED pk pv a) AT_MAP_BLACK k v
                   (MapNode b AT_MAP_RED gk gv u)) rest)"
  by simp

lemma rebalanceInsert_RR:
  "rebalanceInsert (MapNode a AT_MAP_RED k v b)
     (RightOf pl AT_MAP_RED pk pv # RightOf u gc gk gv # rest) =
   (if isRed u
    then rebalanceInsert
           (MapNode (setColor AT_MAP_BLACK u) AT_MAP_RED gk gv
              (MapNode pl AT_MAP_BLACK pk pv (MapNode a AT_MAP_RED k v b))) rest
    else rootOf (MapNode (MapNode u AT_MAP_RED gk gv pl) AT_MAP_BLACK pk pv
                   (MapNode a AT_MAP_RED k v b)) rest)"
  by simp

lemma rebalanceInsert_RL:
  "rebalanceInsert (MapNode a AT_MAP_RED k v b)
     (LeftOf AT_MAP_RED pk pv pr # RightOf u gc gk gv # rest) =
   (if isRed u
    then rebalanceInsert
           (MapNode (setColor AT_MAP_BLACK u) AT_MAP_RED gk gv
              (MapNode (MapNode a AT_MAP_RED k v b) AT_MAP_BLACK pk pv pr)) rest
    else rootOf (MapNode (MapNode u AT_MAP_RED gk gv a) AT_MAP_BLACK k v
                   (MapNode b AT_MAP_RED pk pv pr)) rest)"
  by simp

lemma isRedE: "isRed t \<Longrightarrow> (\<And>l k v r. t = MapNode l AT_MAP_RED k v r \<Longrightarrow> P) \<Longrightarrow> P"
  by (cases t rule: isRed.cases) auto

lemma inorderKeys_rootOf_cong:
  "inorderKeys t = inorderKeys t' \<Longrightarrow> inorderKeys (rootOf t ps) = inorderKeys (rootOf t' ps)"
  by (simp add: inorderKeys_rootOf)

lemma inorderKeys_rebalanceInsert:
  "inorderKeys (rebalanceInsert node ps) = inorderKeys (rootOf node ps)"
proof (induction ps arbitrary: node rule: length_induct)
  case (1 ps)
  show ?case
  proof (cases ps)
    case Nil
    then show ?thesis by simp
  next
    case (Cons p ps')
    note ps = Cons
    show ?thesis
    proof (cases ps')
      case Nil
      with ps show ?thesis by simp
    next
      case (Cons g rest)
      have IH: "\<And>n. inorderKeys (rebalanceInsert n rest) = inorderKeys (rootOf n rest)"
        using 1 ps Cons by simp
      show ?thesis
      proof (cases "isRed node \<and> linkColor p = AT_MAP_RED")
        case False
        then have "rebalanceInsert node ps = rootOf node ps"
          unfolding ps Cons by (cases "linkColor p") auto
        then show ?thesis by simp
      next
        case True
        then obtain a k v b where node: "node = MapNode a AT_MAP_RED k v b"
          by (auto elim: isRedE)
        from True show ?thesis
          unfolding ps Cons node
          by (cases p; cases g)
             (auto simp del: rebalanceInsert.simps
                simp add: rebalanceInsert_LL rebalanceInsert_LR rebalanceInsert_RR
                  rebalanceInsert_RL IH inorderKeys_rootOf inorderKeys_setColor)
      qed
    qed
  qed
qed

lemma rebalance_finish:
  assumes "noRedRed S" "\<not> isRed S" "blackBalanced S" "blackHeight G = blackHeight S"
    and "noRedRed (rootOf G rest)" "blackBalanced (rootOf G rest)"
  shows "noRedRed (setColor AT_MAP_BLACK (rootOf S rest)) \<and> blackBalanced (rootOf S rest)"
proof
  have "noRedRed (rootOf S rest)"
    by (rule noRedRed_rootOf_replace [OF assms(1) _ assms(5)]) (simp add: assms(2))
  then show "noRedRed (setColor AT_MAP_BLACK (rootOf S rest))"
    by (rule noRedRed_setColor_black)
  show "blackBalanced (rootOf S rest)"
    by (rule blackBalanced_rootOf_replace [OF assms(4) assms(3) assms(6)])
qed

lemma blackHeight_setColor_red_to_black:
  "isRed u \<Longrightarrow> blackHeight (setColor AT_MAP_BLACK u) = Suc (blackHeight u)"
  by (auto elim: isRedE)

lemma noRedRed_setColor_any: "noRedRed u \<Longrightarrow> isRed u \<Longrightarrow> noRedRed (setColor c u)"
  by (auto elim!: isRedE)

lemma rebalanceInsert_balanced:
  assumes "isRed node" "noRedRed node" "blackBalanced node"
    and "\<not> isRed t0" "blackHeight t0 = blackHeight node"
    and "noRedRed (rootOf t0 ps)" "blackBalanced (rootOf t0 ps)"
  shows "noRedRed (setColor AT_MAP_BLACK (rebalanceInsert node ps)) \<and>
         blackBalanced (rebalanceInsert node ps)"
  using assms
proof (induction ps arbitrary: node t0 rule: length_induct)
  case (1 ps)
  note prems = "1.prems"
  from prems(1) obtain a k v b where node: "node = MapNode a AT_MAP_RED k v b"
    by (auto elim: isRedE)
  show ?case
  proof (cases ps)
    case Nil
    with prems show ?thesis by (simp add: noRedRed_setColor_black)
  next
    case (Cons p ps')
    note ps = Cons
    from prems(6,7) have P0: "noRedRed (plug p t0)" "blackBalanced (plug p t0)"
      unfolding ps using noRedRed_rootOf_sub [of "plug p t0" ps']
        blackBalanced_rootOf_sub [of "plug p t0" ps'] by simp_all
    have hp: "blackHeight (plug p t0) = blackHeight (plug p node)"
      using blackHeight_plug [OF prems(5) P0(2)] by simp
    have bp: "blackBalanced (plug p node)"
      by (rule blackBalanced_plug [OF prems(5) prems(3) P0(2)])
    show ?thesis
    proof (cases "linkColor p")
      case AT_MAP_BLACK
      have eq: "rebalanceInsert node ps = rootOf (plug p node) ps'"
        unfolding ps using AT_MAP_BLACK by (simp add: rebalanceInsert_black_parent)
      have "noRedRed (plug p node)"
        using P0(1) prems(2) AT_MAP_BLACK by (cases p) auto
      moreover have "\<not> isRed (plug p node)"
        using AT_MAP_BLACK by (simp add: isRed_plug)
      ultimately show ?thesis
        unfolding eq using bp hp prems(6,7) unfolding ps
        by (intro rebalance_finish [where G = "plug p t0"]) simp_all
    next
      case AT_MAP_RED
      note pred = AT_MAP_RED
      show ?thesis
      proof (cases ps')
        case Nil
        have "noRedRed (setColor AT_MAP_BLACK (plug p node))"
          using P0(1) prems(2) by (cases p) auto
        with bp show ?thesis unfolding ps Nil by simp
      next
        case (Cons g rest)
        define G where "G = plug g (plug p t0)"
        from prems(6,7) have G: "noRedRed (rootOf G rest)" "blackBalanced (rootOf G rest)"
          unfolding ps Cons G_def by simp_all
        then have G0: "noRedRed G" "blackBalanced G"
          using noRedRed_rootOf_sub [of G rest] blackBalanced_rootOf_sub [of G rest] by simp_all
        have IH: "\<And>n t. isRed n \<Longrightarrow> noRedRed n \<Longrightarrow> blackBalanced n \<Longrightarrow> \<not> isRed t \<Longrightarrow>
            blackHeight t = blackHeight n \<Longrightarrow> noRedRed (rootOf t rest) \<Longrightarrow>
            blackBalanced (rootOf t rest) \<Longrightarrow>
            noRedRed (setColor AT_MAP_BLACK (rebalanceInsert n rest)) \<and>
            blackBalanced (rebalanceInsert n rest)"
          using "1.IH" ps Cons by simp
        show ?thesis
        proof (cases p)
          case (LeftOf pc pk pv pr)
          note p = LeftOf
          show ?thesis
          proof (cases g)
            case (LeftOf gc gk gv u)
            from G0 pred p LeftOf prems(2,3,4,5) node
            have f: "gc = AT_MAP_BLACK" "\<not> isRed pr" "noRedRed pr" "noRedRed u"
              "blackHeight a = blackHeight b" "blackBalanced a" "blackBalanced b"
              "blackHeight pr = blackHeight a" "blackHeight u = blackHeight a"
              "blackBalanced pr" "blackBalanced u" "noRedRed a" "noRedRed b"
              "\<not> isRed a" "\<not> isRed b" "pc = AT_MAP_RED" "blackHeight t0 = blackHeight a"
              unfolding G_def by (cases gc; auto)+
            show ?thesis
            proof (cases "isRed u")
              case True
              let ?n = "MapNode (MapNode (MapNode a AT_MAP_RED k v b) AT_MAP_BLACK pk pv pr)
                AT_MAP_RED gk gv (setColor AT_MAP_BLACK u)"
              have "noRedRed (setColor AT_MAP_BLACK (rebalanceInsert ?n rest)) \<and>
                  blackBalanced (rebalanceInsert ?n rest)"
                using f True G LeftOf p
                by (intro IH [where t = G])
                   (auto simp: G_def blackHeight_setColor_red_to_black noRedRed_setColor_any
                      isRed_setColor_black blackBalanced_setColor)
              then show ?thesis
                unfolding ps Cons p LeftOf node f(16) using True
                by (simp only: rebalanceInsert_LL if_True)
            next
              case False
              let ?S = "MapNode (MapNode a AT_MAP_RED k v b) AT_MAP_BLACK pk pv
                   (MapNode pr AT_MAP_RED gk gv u)"
              have "noRedRed (setColor AT_MAP_BLACK (rootOf ?S rest)) \<and>
                  blackBalanced (rootOf ?S rest)"
                using f False G LeftOf p
                by (intro rebalance_finish [where G = G]) (auto simp: G_def)
              then show ?thesis
                unfolding ps Cons p LeftOf node f(16) using False
                by (simp only: rebalanceInsert_LL if_False)
            qed
          next
            case (RightOf u gc gk gv)
            from G0 pred p RightOf prems(2,3,4,5) node
            have f: "gc = AT_MAP_BLACK" "\<not> isRed pr" "noRedRed pr" "noRedRed u"
              "blackHeight a = blackHeight b" "blackBalanced a" "blackBalanced b"
              "blackHeight pr = blackHeight a" "blackHeight u = blackHeight a"
              "blackBalanced pr" "blackBalanced u" "noRedRed a" "noRedRed b"
              "\<not> isRed a" "\<not> isRed b" "pc = AT_MAP_RED" "blackHeight t0 = blackHeight a"
              unfolding G_def by (cases gc; auto)+
            show ?thesis
            proof (cases "isRed u")
              case True
              let ?n = "MapNode (setColor AT_MAP_BLACK u) AT_MAP_RED gk gv
                (MapNode (MapNode a AT_MAP_RED k v b) AT_MAP_BLACK pk pv pr)"
              have "noRedRed (setColor AT_MAP_BLACK (rebalanceInsert ?n rest)) \<and>
                  blackBalanced (rebalanceInsert ?n rest)"
                using f True G RightOf p
                by (intro IH [where t = G])
                   (auto simp: G_def blackHeight_setColor_red_to_black noRedRed_setColor_any
                      isRed_setColor_black blackBalanced_setColor)
              then show ?thesis
                unfolding ps Cons p RightOf node f(16) using True
                by (simp only: rebalanceInsert_RL if_True)
            next
              case False
              let ?S = "MapNode (MapNode u AT_MAP_RED gk gv a) AT_MAP_BLACK k v
                   (MapNode b AT_MAP_RED pk pv pr)"
              have "noRedRed (setColor AT_MAP_BLACK (rootOf ?S rest)) \<and>
                  blackBalanced (rootOf ?S rest)"
                using f False G RightOf p
                by (intro rebalance_finish [where G = G]) (auto simp: G_def)
              then show ?thesis
                unfolding ps Cons p RightOf node f(16) using False
                by (simp only: rebalanceInsert_RL if_False)
            qed
          qed
        next
          case (RightOf pl pc pk pv)
          note p = RightOf
          show ?thesis
          proof (cases g)
            case (LeftOf gc gk gv u)
            from G0 pred p LeftOf prems(2,3,4,5) node
            have f: "gc = AT_MAP_BLACK" "\<not> isRed pl" "noRedRed pl" "noRedRed u"
              "blackHeight a = blackHeight b" "blackBalanced a" "blackBalanced b"
              "blackHeight pl = blackHeight a" "blackHeight u = blackHeight a"
              "blackBalanced pl" "blackBalanced u" "noRedRed a" "noRedRed b"
              "\<not> isRed a" "\<not> isRed b" "pc = AT_MAP_RED" "blackHeight t0 = blackHeight a"
              unfolding G_def by (cases gc; auto)+
            show ?thesis
            proof (cases "isRed u")
              case True
              let ?n = "MapNode (MapNode pl AT_MAP_BLACK pk pv (MapNode a AT_MAP_RED k v b))
                AT_MAP_RED gk gv (setColor AT_MAP_BLACK u)"
              have "noRedRed (setColor AT_MAP_BLACK (rebalanceInsert ?n rest)) \<and>
                  blackBalanced (rebalanceInsert ?n rest)"
                using f True G LeftOf p
                by (intro IH [where t = G])
                   (auto simp: G_def blackHeight_setColor_red_to_black noRedRed_setColor_any
                      isRed_setColor_black blackBalanced_setColor)
              then show ?thesis
                unfolding ps Cons p LeftOf node f(16) using True
                by (simp only: rebalanceInsert_LR if_True)
            next
              case False
              let ?S = "MapNode (MapNode pl AT_MAP_RED pk pv a) AT_MAP_BLACK k v
                   (MapNode b AT_MAP_RED gk gv u)"
              have "noRedRed (setColor AT_MAP_BLACK (rootOf ?S rest)) \<and>
                  blackBalanced (rootOf ?S rest)"
                using f False G LeftOf p
                by (intro rebalance_finish [where G = G]) (auto simp: G_def)
              then show ?thesis
                unfolding ps Cons p LeftOf node f(16) using False
                by (simp only: rebalanceInsert_LR if_False)
            qed
          next
            case (RightOf u gc gk gv)
            from G0 pred p RightOf prems(2,3,4,5) node
            have f: "gc = AT_MAP_BLACK" "\<not> isRed pl" "noRedRed pl" "noRedRed u"
              "blackHeight a = blackHeight b" "blackBalanced a" "blackBalanced b"
              "blackHeight pl = blackHeight a" "blackHeight u = blackHeight a"
              "blackBalanced pl" "blackBalanced u" "noRedRed a" "noRedRed b"
              "\<not> isRed a" "\<not> isRed b" "pc = AT_MAP_RED" "blackHeight t0 = blackHeight a"
              unfolding G_def by (cases gc; auto)+
            show ?thesis
            proof (cases "isRed u")
              case True
              let ?n = "MapNode (setColor AT_MAP_BLACK u) AT_MAP_RED gk gv
                (MapNode pl AT_MAP_BLACK pk pv (MapNode a AT_MAP_RED k v b))"
              have "noRedRed (setColor AT_MAP_BLACK (rebalanceInsert ?n rest)) \<and>
                  blackBalanced (rebalanceInsert ?n rest)"
                using f True G RightOf p
                by (intro IH [where t = G])
                   (auto simp: G_def blackHeight_setColor_red_to_black noRedRed_setColor_any
                      isRed_setColor_black blackBalanced_setColor)
              then show ?thesis
                unfolding ps Cons p RightOf node f(16) using True
                by (simp only: rebalanceInsert_RR if_True)
            next
              case False
              let ?S = "MapNode (MapNode u AT_MAP_RED gk gv pl) AT_MAP_BLACK pk pv
                   (MapNode a AT_MAP_RED k v b)"
              have "noRedRed (setColor AT_MAP_BLACK (rootOf ?S rest)) \<and>
                  blackBalanced (rootOf ?S rest)"
                using f False G RightOf p
                by (intro rebalance_finish [where G = G]) (auto simp: G_def)
              then show ?thesis
                unfolding ps Cons p RightOf node f(16) using False
                by (simp only: rebalanceInsert_RR if_False)
            qed
          qed
        qed
      qed
    qed
  qed
qed

subsection \<open>Sorted key sequences and the ordering invariant\<close>

lemma bstOrdering_of_ascending:
  "compareIsOrder cmp \<Longrightarrow> keysAscending cmp (inorderKeys t) \<Longrightarrow> bstOrdering cmp t"
proof (induction t)
  case NullNode
  show ?case by simp
next
  case (MapNode l c k v r)
  from MapNode.prems(2) have parts: "keysAscending cmp (inorderKeys l)"
    "keysAscending cmp (inorderKeys r)" "\<forall>x \<in> set (inorderKeys l). cmp x k < 0"
    "\<forall>y \<in> set (inorderKeys r). cmp k y < 0"
    by (auto simp: keysAscending_def sorted_wrt_append)
  from parts(4) have "\<forall>y \<in> set (inorderKeys r). 0 \<le> cmp y k"
    using cmp_flip [OF MapNode.prems(1)] by fastforce
  with parts MapNode.IH MapNode.prems(1) show ?case by simp
qed

lemma ascending_of_bstOrdering:
  assumes ord: "compareIsOrder cmp" and agr: "\<forall>a b. cmp a b = 0 \<longrightarrow> eq a b"
  shows "bstOrdering cmp t \<Longrightarrow> keyUniqueness eq t \<Longrightarrow> keysAscending cmp (inorderKeys t)"
proof (induction t)
  case NullNode
  show ?case by (simp add: keysAscending_def)
next
  case (MapNode l c k v r)
  from MapNode.prems(2) have u: "keyUniqueness eq l" "keyUniqueness eq r"
    "\<forall>y \<in> set (inorderKeys r). \<not> eq y k"
    by (auto simp: keyUniqueness_def sorted_wrt_append)
  from MapNode.prems(1) have b: "bstOrdering cmp l" "bstOrdering cmp r"
    "\<forall>x \<in> set (inorderKeys l). cmp x k < 0" "\<forall>y \<in> set (inorderKeys r). 0 \<le> cmp y k"
    by simp_all
  have gt: "\<forall>y \<in> set (inorderKeys r). cmp k y < 0"
  proof
    fix y assume y: "y \<in> set (inorderKeys r)"
    with b(4) u(3) agr have "0 < cmp y k" by (metis order_le_less)
    then show "cmp k y < 0" using cmp_flip [OF ord] by simp
  qed
  have cross: "\<forall>x \<in> set (inorderKeys l). \<forall>y \<in> set (inorderKeys r). cmp x y < 0"
    using b(3) gt cmp_lt_trans [OF ord] by blast
  from MapNode.IH b u have "keysAscending cmp (inorderKeys l)" "keysAscending cmp (inorderKeys r)"
    by simp_all
  with b(3) gt cross show ?case
    by (auto simp: keysAscending_def sorted_wrt_append)
qed

subsection \<open>The search loop of addEntry\<close>

lemma insertSearch_rootOf:
  "t \<noteq> NullNode \<Longrightarrow> insertSearch cmp eq key t ps = (ps', ws) \<Longrightarrow>
   rootOf NullNode ps' = rootOf t ps"
proof (induction t arbitrary: ps ps' ws)
  case NullNode
  then show ?case by simp
next
  case (MapNode l c k v r)
  show ?case
  proof (cases "cmp key k < 0")
    case True
    show ?thesis
    proof (cases "l = NullNode")
      case True
      with \<open>cmp key k < 0\<close> MapNode.prems show ?thesis by auto
    next
      case False
      with True MapNode.prems have "insertSearch cmp eq key l (LeftOf c k v r # ps) = (ps', ws)"
        by simp
      from MapNode.IH(1) [OF False this] show ?thesis by simp
    qed
  next
    case False
    show ?thesis
    proof (cases "r = NullNode")
      case True
      with \<open>\<not> cmp key k < 0\<close> MapNode.prems show ?thesis by auto
    next
      case nn: False
      with False MapNode.prems obtain ws' where
        "insertSearch cmp eq key r (RightOf l c k v # ps) = (ps', ws')"
        by (auto simp: Let_def split: prod.splits)
      from MapNode.IH(2) [OF nn this] show ?thesis by simp
    qed
  qed
qed

lemma insertSearch_place:
  assumes ord: "compareIsOrder cmp"
  shows "t \<noteq> NullNode \<Longrightarrow> insertSearch cmp eq key t ps = (ps', ws) \<Longrightarrow> bstOrdering cmp t \<Longrightarrow>
   (\<forall>x \<in> set (keysBefore ps). cmp x key \<le> 0) \<Longrightarrow> (\<forall>y \<in> set (keysAfter ps). cmp key y < 0) \<Longrightarrow>
   (\<forall>x \<in> set (keysBefore ps'). cmp x key \<le> 0) \<and> (\<forall>y \<in> set (keysAfter ps'). cmp key y < 0)"
proof (induction t arbitrary: ps ps' ws)
  case NullNode
  then show ?case by simp
next
  case (MapNode l c k v r)
  from MapNode.prems(3) have b: "bstOrdering cmp l" "bstOrdering cmp r"
    "\<forall>x \<in> set (inorderKeys l). cmp x k < 0" "\<forall>y \<in> set (inorderKeys r). 0 \<le> cmp y k"
    by simp_all
  show ?case
  proof (cases "cmp key k < 0")
    case True
    have "\<forall>y \<in> set (inorderKeys r). cmp key y < 0"
    proof
      fix y assume "y \<in> set (inorderKeys r)"
      with b(4) have "cmp k y \<le> 0" using cmp_le_flip [OF ord] by simp
      with True show "cmp key y < 0" by (rule cmp_lt_le_trans [OF ord])
    qed
    with True MapNode.prems(5)
    have after: "\<forall>y \<in> set (keysAfter (LeftOf c k v r # ps)). cmp key y < 0" by auto
    have before: "\<forall>x \<in> set (keysBefore (LeftOf c k v r # ps)). cmp x key \<le> 0"
      using MapNode.prems(4) by simp
    show ?thesis
    proof (cases "l = NullNode")
      case True
      with \<open>cmp key k < 0\<close> MapNode.prems(2) have "ps' = LeftOf c k v r # ps" by auto
      with before after show ?thesis by blast
    next
      case False
      with True MapNode.prems have "insertSearch cmp eq key l (LeftOf c k v r # ps) = (ps', ws)"
        by simp
      from MapNode.IH(1) [OF False this b(1) before after] show ?thesis .
    qed
  next
    case False
    then have kk: "cmp k key \<le> 0" using cmp_le_flip [OF ord, of k key] by simp
    have "\<forall>x \<in> set (inorderKeys l). cmp x key \<le> 0"
    proof
      fix x assume "x \<in> set (inorderKeys l)"
      with b(3) have "cmp x k < 0" by simp
      then have "cmp x key < 0" using kk by (rule cmp_lt_le_trans [OF ord])
      then show "cmp x key \<le> 0" by simp
    qed
    with kk MapNode.prems(4)
    have before: "\<forall>x \<in> set (keysBefore (RightOf l c k v # ps)). cmp x key \<le> 0" by auto
    have after: "\<forall>y \<in> set (keysAfter (RightOf l c k v # ps)). cmp key y < 0"
      using MapNode.prems(5) by simp
    show ?thesis
    proof (cases "r = NullNode")
      case True
      with \<open>\<not> cmp key k < 0\<close> MapNode.prems(2) have "ps' = RightOf l c k v # ps" by auto
      with before after show ?thesis by blast
    next
      case nn: False
      with False MapNode.prems obtain ws' where
        "insertSearch cmp eq key r (RightOf l c k v # ps) = (ps', ws')"
        by (auto simp: Let_def split: prod.splits)
      from MapNode.IH(2) [OF nn this b(2) before after] show ?thesis .
    qed
  qed
qed

lemma findNode_absent:
  "\<forall>x \<in> set (inorderKeys t). \<not> eq x key \<Longrightarrow> findNode cmp eq t ps key = None"
  by (induction t arbitrary: ps) simp_all

lemma addEntry_fresh:
  assumes ord: "compareIsOrder cmp"
    and asc: "keysAscending cmp (inorderKeys (treeRoot m))"
    and rb: "noRedRed (treeRoot m)" "blackBalanced (treeRoot m)"
    and fresh: "\<forall>x \<in> set (inorderKeys (treeRoot m)). cmp key x \<noteq> 0 \<and> \<not> eq x key"
  shows "\<exists>ws m' bs as. addEntry cmp eq m key val = (True, ws, m') \<and>
    inorderKeys (treeRoot m) = bs @ as \<and> inorderKeys (treeRoot m') = bs @ key # as \<and>
    keysAscending cmp (inorderKeys (treeRoot m')) \<and> rootBlack (treeRoot m') \<and>
    noRedRed (treeRoot m') \<and> blackBalanced (treeRoot m') \<and> treeSize m' = treeSize m + 1"
proof -
  from fresh have nf: "\<not> containsKey cmp eq m key"
    by (simp add: containsKey_def findNode_absent)
  show ?thesis
  proof (cases "treeRoot m = NullNode")
    case True
    with nf show ?thesis
      by (simp add: addEntry_def keysAscending_def rootBlack_def)
  next
    case False
    obtain ps ws where search: "insertSearch cmp eq key (treeRoot m) [] = (ps, ws)"
      by (cases "insertSearch cmp eq key (treeRoot m) []") auto
    let ?n = "MapNode NullNode AT_MAP_RED key val NullNode"
    let ?t = "rebalanceInsert ?n ps"
    let ?m = "\<lparr>treeRoot = setColor AT_MAP_BLACK ?t, treeSize = treeSize m + 1\<rparr>"
    from nf False search have res: "addEntry cmp eq m key val = (True, ws, ?m)"
      by (simp add: addEntry_def)
    have root: "rootOf NullNode ps = treeRoot m"
      using insertSearch_rootOf [OF False search] by simp
    then have old: "inorderKeys (treeRoot m) = keysBefore ps @ keysAfter ps"
      using inorderKeys_rootOf [of NullNode ps] by simp
    have new: "inorderKeys (treeRoot ?m) = keysBefore ps @ key # keysAfter ps"
      by (simp add: inorderKeys_setColor inorderKeys_rebalanceInsert inorderKeys_rootOf)
    have bst: "bstOrdering cmp (treeRoot m)"
      by (rule bstOrdering_of_ascending [OF ord asc])
    have place: "(\<forall>x \<in> set (keysBefore ps). cmp x key \<le> 0) \<and>
        (\<forall>y \<in> set (keysAfter ps). cmp key y < 0)"
      by (rule insertSearch_place [OF ord False search bst]) simp_all
    have before: "\<forall>x \<in> set (keysBefore ps). cmp x key < 0"
    proof
      fix x assume x: "x \<in> set (keysBefore ps)"
      with fresh old have "cmp key x \<noteq> 0" by simp
      then have "cmp x key \<noteq> 0" using cmp_zero_flip [OF ord, of x key] by simp
      with place x show "cmp x key < 0" by fastforce
    qed
    from asc old have "keysAscending cmp (keysBefore ps @ keysAfter ps)" by simp
    with before place have asc': "keysAscending cmp (inorderKeys (treeRoot ?m))"
      unfolding new by (auto simp: keysAscending_def sorted_wrt_append)
    have bal: "noRedRed (setColor AT_MAP_BLACK ?t) \<and> blackBalanced ?t"
      by (rule rebalanceInsert_balanced [where ?t0.0 = NullNode]) (simp_all add: root rb)
    then have "rootBlack (treeRoot ?m)" "noRedRed (treeRoot ?m)" "blackBalanced (treeRoot ?m)"
      by (simp_all add: rootBlack_def isRed_setColor_black blackBalanced_setColor)
    with res old new asc' show ?thesis by (intro exI [of _ ws] exI [of _ ?m]) auto
  qed
qed

lemma addEntries_step:
  assumes ord: "compareIsOrder cmp"
    and asc: "keysAscending cmp (inorderKeys (treeRoot m))"
    and uniq: "keyUniqueness eq (treeRoot m)"
    and rb: "rootBlack (treeRoot m)" "noRedRed (treeRoot m)" "blackBalanced (treeRoot m)"
    and fresh: "\<forall>k \<in> set ks. \<forall>x \<in> set (inorderKeys (treeRoot m)).
                 cmp k x \<noteq> 0 \<and> \<not> eq x k \<and> \<not> eq k x"
    and dist: "keysDistinct cmp eq ks" and ks: "ks = map fst kvs"
  shows "n \<le> length kvs \<Longrightarrow>
     keysAscending cmp (inorderKeys (treeRoot (addEntries cmp eq m (take n kvs)))) \<and>
     keyUniqueness eq (treeRoot (addEntries cmp eq m (take n kvs))) \<and>
     rootBlack (treeRoot (addEntries cmp eq m (take n kvs))) \<and>
     noRedRed (treeRoot (addEntries cmp eq m (take n kvs))) \<and>
     blackBalanced (treeRoot (addEntries cmp eq m (take n kvs))) \<and>
     treeSize (addEntries cmp eq m (take n kvs)) = treeSize m + of_nat n \<and>
     numNodes (treeRoot (addEntries cmp eq m (take n kvs))) = numNodes (treeRoot m) + n"
  using asc uniq rb fresh dist ks
proof (induction kvs arbitrary: m n ks)
  case Nil
  then show ?case by simp
next
  case (Cons kv rest)
  obtain key val where kv: "kv = (key, val)" by (cases kv)
  show ?case
  proof (cases n)
    case 0
    with Cons.prems show ?thesis by simp
  next
    case (Suc n')
    with Cons.prems(1) have n': "n' \<le> length rest" by simp
    from Cons.prems(7,9) kv
    have fr: "\<forall>x \<in> set (inorderKeys (treeRoot m)). cmp key x \<noteq> 0 \<and> \<not> eq x key \<and> \<not> eq key x"
      by simp
    then have "\<forall>x \<in> set (inorderKeys (treeRoot m)). cmp key x \<noteq> 0 \<and> \<not> eq x key" by simp
    from addEntry_fresh [where eq = eq and key = key and val = val, OF ord Cons.prems(2) Cons.prems(5,6) this]
    obtain ws m' bs as where step: "addEntry cmp eq m key val = (True, ws, m')"
      "inorderKeys (treeRoot m) = bs @ as" "inorderKeys (treeRoot m') = bs @ key # as"
      "keysAscending cmp (inorderKeys (treeRoot m'))" "rootBlack (treeRoot m')"
      "noRedRed (treeRoot m')" "blackBalanced (treeRoot m')" "treeSize m' = treeSize m + 1"
      by blast
    have uniq': "keyUniqueness eq (treeRoot m')"
      using Cons.prems(3) fr step(2,3)
      by (auto simp: keyUniqueness_def sorted_wrt_append)
    from Cons.prems(8,9) kv
    have d: "keysDistinct cmp eq (map fst rest)"
      "\<forall>k \<in> set (map fst rest). cmp key k \<noteq> 0 \<and> cmp k key \<noteq> 0 \<and> \<not> eq key k \<and> \<not> eq k key"
      by (auto simp: keysDistinct_def)
    have fresh': "\<forall>k \<in> set (map fst rest). \<forall>x \<in> set (inorderKeys (treeRoot m')).
        cmp k x \<noteq> 0 \<and> \<not> eq x k \<and> \<not> eq k x"
      using Cons.prems(7,9) d(2) step(2,3) by auto
    from Cons.IH [OF n' step(4) uniq' step(5,6,7) fresh' d(1) refl]
    have IH: "keysAscending cmp (inorderKeys (treeRoot (addEntries cmp eq m' (take n' rest))))"
      "keyUniqueness eq (treeRoot (addEntries cmp eq m' (take n' rest)))"
      "rootBlack (treeRoot (addEntries cmp eq m' (take n' rest)))"
      "noRedRed (treeRoot (addEntries cmp eq m' (take n' rest)))"
      "blackBalanced (treeRoot (addEntries cmp eq m' (take n' rest)))"
      "treeSize (addEntries cmp eq m' (take n' rest)) = treeSize m' + of_nat n'"
      "numNodes (treeRoot (addEntries cmp eq m' (take n' rest))) = numNodes (treeRoot m') + n'"
      by simp_all
    have nn: "numNodes (treeRoot m') = numNodes (treeRoot m) + 1"
      using step(2,3) by (simp add: numNodes_length)
    have unfold: "addEntries cmp eq m (take n (kv # rest)) = addEntries cmp eq m' (take n' rest)"
      using Suc kv step(1) by simp
    show ?thesis unfolding unfold using IH nn step(8) Suc by simp
  qed
qed

text \<open>
  Claim C1. Starting from the empty map, after each call of a sequence of \<^verbatim>\<open>addEntry\<close> calls
  whose keys are pairwise distinct under both \<^verbatim>\<open>compare\<close> and \<^verbatim>\<open>equals\<close>, the tree satisfies
  the five red-black invariants, it has as many nodes as keys were inserted, and the
  counter \<^verbatim>\<open>treeSize\<close> is that number (as an unsigned long; a tree of \<open>2 ^ 64\<close> nodes does not
  fit the address space the counter is taken from). The map after the first \<open>n\<close> calls
  is \<open>addEntries cmp eq emptyMap (take n kvs)\<close>.
\<close>

theorem addEntry_keeps_invariants:
  assumes "compareIsOrder cmp" and "keysDistinct cmp eq (map fst kvs)" and "n \<le> length kvs"
  shows "redBlackInvariants cmp eq (addEntries cmp eq emptyMap (take n kvs)) \<and>
         numNodes (treeRoot (addEntries cmp eq emptyMap (take n kvs))) = n \<and>
         treeSize (addEntries cmp eq emptyMap (take n kvs)) = of_nat n \<and>
         (n < 2 ^ 64 \<longrightarrow> unat (treeSize (addEntries cmp eq emptyMap (take n kvs))) = n)"
proof -
  let ?m = "addEntries cmp eq emptyMap (take n kvs)"
  have e: "keysAscending cmp (inorderKeys (treeRoot (emptyMap :: ('a, 'b) atMap)))"
    "keyUniqueness eq (treeRoot (emptyMap :: ('a, 'b) atMap))"
    "rootBlack (treeRoot (emptyMap :: ('a, 'b) atMap))"
    "noRedRed (treeRoot (emptyMap :: ('a, 'b) atMap))"
    "blackBalanced (treeRoot (emptyMap :: ('a, 'b) atMap))"
    "\<forall>k \<in> set (map fst kvs). \<forall>x \<in> set (inorderKeys (treeRoot (emptyMap :: ('a, 'b) atMap))).
       cmp k x \<noteq> 0 \<and> \<not> eq x k \<and> \<not> eq k x"
    by (simp_all add: emptyMap_def keysAscending_def keyUniqueness_def rootBlack_def)
  from addEntries_step [OF assms(1) e assms(2) refl assms(3)]
  have f: "keysAscending cmp (inorderKeys (treeRoot ?m))" "keyUniqueness eq (treeRoot ?m)"
     "rootBlack (treeRoot ?m)" "noRedRed (treeRoot ?m)" "blackBalanced (treeRoot ?m)"
     "treeSize ?m = of_nat n" "numNodes (treeRoot ?m) = n"
    by (simp_all add: emptyMap_def)
  have "bstOrdering cmp (treeRoot ?m)"
    by (rule bstOrdering_of_ascending [OF assms(1) f(1)])
  moreover have "n < 2 ^ 64 \<longrightarrow> unat (treeSize ?m) = n"
    unfolding f(6) by (simp add: unat_of_nat)
  ultimately show ?thesis using f by (simp add: redBlackInvariants_def)
qed

lemma compareIsOrder_cmpInt: "compareIsOrder (\<lambda>a b :: int. a - b)"
  by (auto simp: compareIsOrder_def)

theorem addEntry_keeps_invariants_witness:
  "compareIsOrder (\<lambda>a b :: int. a - b) \<and>
   keysDistinct (\<lambda>a b :: int. a - b) (=) (map fst [(5, Some (50::nat)), (3, Some 30), (8, None)]) \<and>
   (3::nat) \<le> length [(5::int, Some (50::nat)), (3, Some 30), (8, None)] \<and>
   redBlackInvariants (\<lambda>a b :: int. a - b) (=)
     (addEntries (\<lambda>a b :: int. a - b) (=) emptyMap (take 3 [(5, Some (50::nat)), (3, Some 30), (8, None)])) \<and>
   treeSize (addEntries (\<lambda>a b :: int. a - b) (=) emptyMap (take 3 [(5, Some (50::nat)), (3, Some 30), (8, None)])) = 3"
proof -
  have a: "compareIsOrder (\<lambda>a b :: int. a - b)" by (rule compareIsOrder_cmpInt)
  have b: "keysDistinct (\<lambda>a b :: int. a - b) (=) (map fst [(5, Some (50::nat)), (3, Some 30), (8, None)])"
    by (simp add: keysDistinct_def)
  have c: "(3::nat) \<le> length [(5::int, Some (50::nat)), (3, Some 30), (8, None)]" by simp
  from addEntry_keeps_invariants [OF a b c] a b c show ?thesis by simp
qed

section \<open>Lookup\<close>

lemma map_fst_inorderEntries: "map fst (inorderEntries t) = inorderKeys t"
  by (induction t) simp_all

lemma map_snd_inorderEntries: "map snd (inorderEntries t) = inorderValues t"
  by (induction t) simp_all

lemma entry_key: "(k, v) \<in> set (inorderEntries t) \<Longrightarrow> k \<in> set (inorderKeys t)"
  using map_fst_inorderEntries [of t] by (metis fst_conv image_eqI set_map)

lemma findNode_found:
  "findNode cmp eq t ps key = Some (n, ps') \<Longrightarrow>
   rootOf n ps' = rootOf t ps \<and> (\<exists>l c k v r. n = MapNode l c k v r \<and> eq k key)"
proof (induction t arbitrary: ps)
  case NullNode
  then show ?case by simp
next
  case (MapNode l c k v r)
  show ?case
  proof (cases "eq k key")
    case True
    with MapNode.prems show ?thesis by auto
  next
    case False
    show ?thesis
    proof (cases "0 < cmp key k")
      case True
      with False MapNode.prems have "findNode cmp eq r (RightOf l c k v # ps) key = Some (n, ps')"
        by simp
      from MapNode.IH(2) [OF this] show ?thesis by simp
    next
      case nr: False
      with False MapNode.prems have "findNode cmp eq l (LeftOf c k v r # ps) key = Some (n, ps')"
        by simp
      from MapNode.IH(1) [OF this] show ?thesis by simp
    qed
  qed
qed

lemma cmp_zero_left:
  assumes "compareIsOrder cmp" "cmp a b = 0"
  shows "(cmp a c < 0) = (cmp b c < 0)" and "(cmp c a < 0) = (cmp c b < 0)"
proof -
  from assms have ab: "cmp a b \<le> 0" "cmp b a \<le> 0"
    using cmp_zero_flip [OF assms(1), of a b] by simp_all
  show "(cmp a c < 0) = (cmp b c < 0)"
    using cmp_le_lt_trans [OF assms(1) ab(1), of c] cmp_le_lt_trans [OF assms(1) ab(2), of c]
    by blast
  show "(cmp c a < 0) = (cmp c b < 0)"
    using cmp_lt_le_trans [OF assms(1) _ ab(1), of c] cmp_lt_le_trans [OF assms(1) _ ab(2), of c]
    by blast
qed

lemma findNode_stored:
  assumes ord: "compareIsOrder cmp" and agr: "equalsAgrees cmp eq"
  shows "keysAscending cmp (inorderKeys t) \<Longrightarrow> (k, v) \<in> set (inorderEntries t) \<Longrightarrow> eq k key \<Longrightarrow>
    \<exists>l c r ps'. findNode cmp eq t ps key = Some (MapNode l c k v r, ps')"
proof (induction t arbitrary: ps)
  case NullNode
  then show ?case by simp
next
  case (MapNode l c k0 v0 r)
  from MapNode.prems(1) have asc: "keysAscending cmp (inorderKeys l)"
    "keysAscending cmp (inorderKeys r)" "\<forall>x \<in> set (inorderKeys l). cmp x k0 < 0"
    "\<forall>y \<in> set (inorderKeys r). cmp k0 y < 0"
    by (auto simp: keysAscending_def sorted_wrt_append)
  from MapNode.prems(3) agr have kk: "cmp k key = 0" by (simp add: equalsAgrees_def)
  have e0: "eq k0 key = (cmp k0 k = 0)"
  proof -
    have "eq k0 key = (cmp k0 key = 0)" using agr by (simp add: equalsAgrees_def)
    also have "\<dots> = (\<not> cmp k0 key < 0 \<and> \<not> cmp key k0 < 0)"
      using cmp_flip [OF ord, of key k0] by auto
    also have "\<dots> = (\<not> cmp k0 k < 0 \<and> \<not> cmp k k0 < 0)"
      using cmp_zero_left [OF ord kk, of k0] by simp
    also have "\<dots> = (cmp k0 k = 0)"
      using cmp_flip [OF ord, of k k0] by auto
    finally show ?thesis .
  qed
  from MapNode.prems(2) consider
    (left) "(k, v) \<in> set (inorderEntries l)" | (here) "k = k0" "v = v0"
    | (right) "(k, v) \<in> set (inorderEntries r)" by auto
  then show ?case
  proof cases
    case left
    then have lt: "cmp k k0 < 0" using asc(3) entry_key by fastforce
    then have "cmp k0 k \<noteq> 0" using cmp_zero_flip [OF ord, of k0 k] by simp
    with e0 have ne: "\<not> eq k0 key" by simp
    from lt have "cmp key k0 < 0" using cmp_zero_left(1) [OF ord kk, of k0] by simp
    then have "\<not> 0 < cmp key k0" by simp
    with ne MapNode.IH(1) [OF asc(1) left MapNode.prems(3)] show ?thesis by simp
  next
    case here
    with MapNode.prems(3) show ?thesis by simp
  next
    case right
    then have lt: "cmp k0 k < 0" using asc(4) entry_key by fastforce
    with e0 have ne: "\<not> eq k0 key" by simp
    from lt have "cmp k0 key < 0" using cmp_zero_left(2) [OF ord kk, of k0] by simp
    then have "0 < cmp key k0" using cmp_flip [OF ord, of k0 key] by simp
    with ne MapNode.IH(2) [OF asc(2) right MapNode.prems(3)] show ?thesis by simp
  qed
qed

text \<open>
  Claim C3, as amended. When \<^verbatim>\<open>compare\<close> is an ordering of the keys and \<^verbatim>\<open>equals\<close> agrees with
  it, in a map that satisfies the ordering and uniqueness invariants \<^verbatim>\<open>getValue\<close> returns
  the value stored with a key for every key equal to a stored one, and it returns null,
  and \<^verbatim>\<open>containsKey\<close> false, for every key that equals no stored key.
\<close>

theorem getValue_finds_stored_keys:
  assumes "compareIsOrder cmp" and "equalsAgrees cmp eq"
    and "bstOrdering cmp (treeRoot m)" and "keyUniqueness eq (treeRoot m)"
  shows "(\<forall>(k, v) \<in> set (inorderEntries (treeRoot m)).
            \<forall>key. eq k key \<longrightarrow> getValue cmp eq m key = v \<and> containsKey cmp eq m key) \<and>
         (\<forall>key. (\<forall>k \<in> set (inorderKeys (treeRoot m)). \<not> eq k key) \<longrightarrow>
            getValue cmp eq m key = None \<and> \<not> containsKey cmp eq m key)"
proof -
  from assms(2) have "\<forall>a b. cmp a b = 0 \<longrightarrow> eq a b" by (simp add: equalsAgrees_def)
  from ascending_of_bstOrdering [OF assms(1) this assms(3,4)]
  have asc: "keysAscending cmp (inorderKeys (treeRoot m))" .
  have present: "getValue cmp eq m key = v \<and> containsKey cmp eq m key"
    if "(k, v) \<in> set (inorderEntries (treeRoot m))" "eq k key" for k v key
    using findNode_stored [where ps = "[]", OF assms(1,2) asc that]
    by (auto simp: getValue_def containsKey_def)
  have absent: "getValue cmp eq m key = None \<and> \<not> containsKey cmp eq m key"
    if "\<forall>k \<in> set (inorderKeys (treeRoot m)). \<not> eq k key" for key
    using findNode_absent [where eq = eq and key = key and cmp = cmp and ps = "[]", OF that]
    by (simp add: getValue_def containsKey_def)
  from present absent show ?thesis by blast
qed

theorem getValue_finds_stored_keys_witness:
  "compareIsOrder (\<lambda>a b :: int. a - b) \<and> equalsAgrees (\<lambda>a b :: int. a - b) (=) \<and>
   getValue (\<lambda>a b :: int. a - b) (=)
     \<lparr>treeRoot = MapNode (MapNode NullNode AT_MAP_RED 3 (Some (30::nat)) NullNode)
                   AT_MAP_BLACK 5 (Some 50) NullNode, treeSize = 2\<rparr> 3 = Some 30 \<and>
   getValue (\<lambda>a b :: int. a - b) (=)
     \<lparr>treeRoot = MapNode (MapNode NullNode AT_MAP_RED 3 (Some (30::nat)) NullNode)
                   AT_MAP_BLACK 5 (Some 50) NullNode, treeSize = 2\<rparr> 4 = None"
proof -
  let ?m = "\<lparr>treeRoot = MapNode (MapNode NullNode AT_MAP_RED 3 (Some (30::nat)) NullNode)
                   AT_MAP_BLACK (5::int) (Some 50) NullNode, treeSize = 2\<rparr>"
  have a: "compareIsOrder (\<lambda>a b :: int. a - b)" by (rule compareIsOrder_cmpInt)
  have b: "equalsAgrees (\<lambda>a b :: int. a - b) (=)" by (simp add: equalsAgrees_def)
  have c: "bstOrdering (\<lambda>a b :: int. a - b) (treeRoot ?m)" by simp
  have d: "keyUniqueness (=) (treeRoot ?m)" by (simp add: keyUniqueness_def)
  from getValue_finds_stored_keys [OF a b c d] a b show ?thesis by simp
qed

lemma compareIsOrder_compareFirst: "compareIsOrder compareFirst"
  by (auto simp: compareIsOrder_def compareFirst_def)

lemma tiedMap_eq:
  "tiedMap = \<lparr>treeRoot = MapNode NullNode AT_MAP_BLACK (1, 0) (Some 10)
                            (MapNode NullNode AT_MAP_RED (1, 1) (Some 11) NullNode),
              treeSize = 2\<rparr>"
  by (simp add: tiedMap_def emptyMap_def addEntry_def containsKey_def compareFirst_def
      equalsBoth_def)

text \<open>
  Without the agreement the claim as stated fails. \<open>tiedMap\<close> is built by two \<^verbatim>\<open>addEntry\<close>
  calls and satisfies the five invariants; its second key compares as zero with the
  root, sits in the right subtree, and \<^verbatim>\<open>findNode\<close> looks for it on the left.
\<close>

theorem getValue_misses_tied_key:
  "compareIsOrder compareFirst \<and> redBlackInvariants compareFirst equalsBoth tiedMap \<and>
   ((1, 1), Some 11) \<in> set (inorderEntries (treeRoot tiedMap)) \<and>
   getValue compareFirst equalsBoth tiedMap (1, 1) = None \<and>
   \<not> containsKey compareFirst equalsBoth tiedMap (1, 1)"
  by (simp add: compareIsOrder_compareFirst tiedMap_eq redBlackInvariants_def keyUniqueness_def
      rootBlack_def getValue_def containsKey_def compareFirst_def equalsBoth_def)

section \<open>Refused insertions\<close>

lemma not_containsKey:
  "(\<not> containsKey cmp eq m key) = (findNode cmp eq (treeRoot m) [] key = None)"
  unfolding containsKey_def by blast

lemma findNode_bstOrdering:
  assumes ord: "compareIsOrder cmp" and agr: "equalsAgrees cmp eq"
  shows "bstOrdering cmp t \<Longrightarrow> k \<in> set (inorderKeys t) \<Longrightarrow> eq k key \<Longrightarrow>
    findNode cmp eq t ps key \<noteq> None"
proof (induction t arbitrary: ps)
  case NullNode
  then show ?case by simp
next
  case (MapNode l c k0 v0 r)
  from MapNode.prems(1) have b: "bstOrdering cmp l" "bstOrdering cmp r"
    "\<forall>x \<in> set (inorderKeys l). cmp x k0 < 0" "\<forall>y \<in> set (inorderKeys r). 0 \<le> cmp y k0"
    by simp_all
  from MapNode.prems(3) agr have kk: "cmp k key = 0" by (simp add: equalsAgrees_def)
  show ?case
  proof (cases "eq k0 key")
    case True
    then show ?thesis by simp
  next
    case False
    then have nz: "cmp key k0 \<noteq> 0"
      using agr cmp_zero_flip [OF ord, of key k0] by (simp add: equalsAgrees_def)
    from False MapNode.prems(2,3) consider
      (left) "k \<in> set (inorderKeys l)" | (right) "k \<in> set (inorderKeys r)" by auto
    then show ?thesis
    proof cases
      case left
      with b(3) have "cmp k k0 < 0" by simp
      then have "cmp key k0 < 0" using cmp_zero_left(1) [OF ord kk, of k0] by simp
      then have "\<not> 0 < cmp key k0" by simp
      with False MapNode.IH(1) [OF b(1) left MapNode.prems(3)] show ?thesis by simp
    next
      case right
      with b(4) have "\<not> cmp k k0 < 0" by fastforce
      then have "\<not> cmp key k0 < 0" using cmp_zero_left(1) [OF ord kk, of k0] by simp
      with nz have "0 < cmp key k0" by simp
      with False MapNode.IH(2) [OF b(2) right MapNode.prems(3)] show ?thesis by simp
    qed
  qed
qed

text \<open>
  Claim C4, as amended. When \<^verbatim>\<open>compare\<close> is an ordering of the keys and \<^verbatim>\<open>equals\<close> agrees with
  it, in a map that satisfies the ordering invariant \<^verbatim>\<open>addEntry\<close> with a key equal to a
  stored key returns false, emits nothing and leaves the map as it is: the same tree,
  colours, keys, values and size.
\<close>

theorem addEntry_refuses_stored_key:
  assumes "compareIsOrder cmp" and "equalsAgrees cmp eq" and "bstOrdering cmp (treeRoot m)"
    and "k \<in> set (inorderKeys (treeRoot m))" and "eq k key"
  shows "addEntry cmp eq m key val = (False, [], m)"
proof -
  have "containsKey cmp eq m key"
    unfolding containsKey_def by (rule findNode_bstOrdering [OF assms])
  then show ?thesis by (simp add: addEntry_def)
qed

theorem addEntry_refuses_stored_key_witness:
  "compareIsOrder (\<lambda>a b :: int. a - b) \<and> equalsAgrees (\<lambda>a b :: int. a - b) (=) \<and>
   addEntry (\<lambda>a b :: int. a - b) (=)
     \<lparr>treeRoot = MapNode (MapNode NullNode AT_MAP_RED 3 (Some (30::nat)) NullNode)
                   AT_MAP_BLACK 5 (Some 50) NullNode, treeSize = 2\<rparr> 3 (Some 31) =
   (False, [],
     \<lparr>treeRoot = MapNode (MapNode NullNode AT_MAP_RED 3 (Some (30::nat)) NullNode)
                   AT_MAP_BLACK 5 (Some 50) NullNode, treeSize = 2\<rparr>)"
proof -
  let ?m = "\<lparr>treeRoot = MapNode (MapNode NullNode AT_MAP_RED 3 (Some (30::nat)) NullNode)
                   AT_MAP_BLACK (5::int) (Some 50) NullNode, treeSize = 2\<rparr>"
  have a: "compareIsOrder (\<lambda>a b :: int. a - b)" by (rule compareIsOrder_cmpInt)
  have b: "equalsAgrees (\<lambda>a b :: int. a - b) (=)" by (simp add: equalsAgrees_def)
  have c: "bstOrdering (\<lambda>a b :: int. a - b) (treeRoot ?m)" by simp
  have d: "(3::int) \<in> set (inorderKeys (treeRoot ?m))" by simp
  have e: "(3::int) = 3" by simp
  from addEntry_refuses_stored_key [OF a b c d e, of "Some 31"] a b show ?thesis by simp
qed

text \<open>
  Without the agreement the claim as stated fails: the key \<open>(1, 1)\<close> is stored in
  \<open>tiedMap\<close>, and \<^verbatim>\<open>addEntry\<close> with that very key returns true, warns and adds a third node.
\<close>

theorem addEntry_accepts_tied_duplicate:
  "compareIsOrder compareFirst \<and> redBlackInvariants compareFirst equalsBoth tiedMap \<and>
   (1, 1) \<in> set (inorderKeys (treeRoot tiedMap)) \<and> equalsBoth (1, 1) (1, 1) \<and>
   addEntry compareFirst equalsBoth tiedMap (1, 1) (Some 5) =
     (True, [KeyCollisionWarning],
      \<lparr>treeRoot = MapNode (MapNode NullNode AT_MAP_RED (1, 0) (Some 10) NullNode)
                    AT_MAP_BLACK (1, 1) (Some 11)
                    (MapNode NullNode AT_MAP_RED (1, 1) (Some 5) NullNode),
       treeSize = 3\<rparr>)"
  by (simp add: compareIsOrder_compareFirst tiedMap_eq redBlackInvariants_def keyUniqueness_def
      rootBlack_def addEntry_def containsKey_def compareFirst_def equalsBoth_def)

section \<open>The collision warning\<close>

lemma insertSearch_silent:
  assumes ord: "compareIsOrder cmp" and agr: "equalsAgrees cmp eq"
  shows "findNode cmp eq t ps key = None \<Longrightarrow> snd (insertSearch cmp eq key t ps') = []"
proof (induction t arbitrary: ps ps')
  case NullNode
  show ?case by simp
next
  case (MapNode l c k v r)
  from MapNode.prems have ne: "\<not> eq k key" by (auto split: if_splits)
  then have nz: "cmp key k \<noteq> 0" "\<not> eq key k"
    using agr cmp_zero_flip [OF ord, of key k] by (simp_all add: equalsAgrees_def)
  show ?case
  proof (cases "cmp key k < 0")
    case True
    then have "\<not> 0 < cmp key k" by simp
    with ne MapNode.prems have "findNode cmp eq l (LeftOf c k v r # ps) key = None" by simp
    from MapNode.IH(1) [OF this] True show ?thesis by simp
  next
    case False
    with nz have "0 < cmp key k" by simp
    with ne MapNode.prems have "findNode cmp eq r (RightOf l c k v # ps) key = None" by simp
    from MapNode.IH(2) [OF this, of "RightOf l c k v # ps'"] False nz show ?thesis
      by (simp add: Let_def split: prod.splits)
  qed
qed

text \<open>
  Claim C7. When \<^verbatim>\<open>equals(a, b)\<close> holds exactly for \<^verbatim>\<open>compare(a, b) == 0\<close> (and \<^verbatim>\<open>compare\<close> is an
  ordering), no call of \<^verbatim>\<open>addEntry\<close> emits the key collision warning, on any map: a call
  that passes the \<^verbatim>\<open>containsKey\<close> check meets no equal key on its way down.
\<close>

theorem addEntry_never_warns:
  assumes "compareIsOrder cmp" and "equalsAgrees cmp eq"
  shows "fst (snd (addEntry cmp eq m key val)) = []"
proof (cases "containsKey cmp eq m key")
  case True
  then show ?thesis by (simp add: addEntry_def)
next
  case False
  then have "findNode cmp eq (treeRoot m) [] key = None" by (simp only: not_containsKey)
  from insertSearch_silent [OF assms this, of "[]"] False show ?thesis
    by (cases "insertSearch cmp eq key (treeRoot m) []") (simp add: addEntry_def)
qed

theorem addEntry_never_warns_witness:
  "compareIsOrder (\<lambda>a b :: int. a - b) \<and> equalsAgrees (\<lambda>a b :: int. a - b) (=) \<and>
   fst (snd (addEntry (\<lambda>a b :: int. a - b) (=)
     \<lparr>treeRoot = MapNode (MapNode NullNode AT_MAP_RED 3 (Some (30::nat)) NullNode)
                   AT_MAP_BLACK 5 (Some 50) NullNode, treeSize = 2\<rparr> 7 (Some 70))) = []"
proof -
  have a: "compareIsOrder (\<lambda>a b :: int. a - b)" by (rule compareIsOrder_cmpInt)
  have b: "equalsAgrees (\<lambda>a b :: int. a - b) (=)" by (simp add: equalsAgrees_def)
  from addEntry_never_warns [OF a b] a b show ?thesis by blast
qed

section \<open>Failed removals\<close>

text \<open>
  Claim C9. For a key that is not in the map (\<^verbatim>\<open>containsKey\<close> is false, which is the case
  whenever no stored key equals it) \<^verbatim>\<open>deleteEntry\<close> returns false, \<^verbatim>\<open>removeEntry\<close> returns
  null, and both leave the map object as it is.
\<close>

theorem remove_absent_key_changes_nothing:
  "(\<not> containsKey cmp eq m key \<longrightarrow>
      deleteEntry cmp eq m key = Some (False, m) \<and> removeEntry cmp eq m key = Some (None, m)) \<and>
   ((\<forall>k \<in> set (inorderKeys (treeRoot m)). \<not> eq k key) \<longrightarrow> \<not> containsKey cmp eq m key)"
proof -
  have "deleteEntry cmp eq m key = Some (False, m) \<and> removeEntry cmp eq m key = Some (None, m)"
    if "findNode cmp eq (treeRoot m) [] key = None"
    using that by (simp add: deleteEntry_def removeEntry_def)
  moreover have "findNode cmp eq (treeRoot m) [] key = None"
    if "\<forall>k \<in> set (inorderKeys (treeRoot m)). \<not> eq k key"
    using that by (rule findNode_absent)
  ultimately show ?thesis unfolding not_containsKey by blast
qed

theorem remove_absent_key_changes_nothing_witness:
  "\<not> containsKey (\<lambda>a b :: int. a - b) (=)
     \<lparr>treeRoot = MapNode (MapNode NullNode AT_MAP_RED 3 (Some (30::nat)) NullNode)
                   AT_MAP_BLACK 5 (Some 50) NullNode, treeSize = 2\<rparr> 4 \<and>
   deleteEntry (\<lambda>a b :: int. a - b) (=)
     \<lparr>treeRoot = MapNode (MapNode NullNode AT_MAP_RED 3 (Some (30::nat)) NullNode)
                   AT_MAP_BLACK 5 (Some 50) NullNode, treeSize = 2\<rparr> 4 =
   Some (False, \<lparr>treeRoot = MapNode (MapNode NullNode AT_MAP_RED 3 (Some (30::nat)) NullNode)
                   AT_MAP_BLACK 5 (Some 50) NullNode, treeSize = 2\<rparr>) \<and>
   removeEntry (\<lambda>a b :: int. a - b) (=)
     \<lparr>treeRoot = MapNode (MapNode NullNode AT_MAP_RED 3 (Some (30::nat)) NullNode)
                   AT_MAP_BLACK 5 (Some 50) NullNode, treeSize = 2\<rparr> 4 =
   Some (None, \<lparr>treeRoot = MapNode (MapNode NullNode AT_MAP_RED 3 (Some (30::nat)) NullNode)
                   AT_MAP_BLACK 5 (Some 50) NullNode, treeSize = 2\<rparr>)"
proof -
  let ?m = "\<lparr>treeRoot = MapNode (MapNode NullNode AT_MAP_RED 3 (Some (30::nat)) NullNode)
                   AT_MAP_BLACK (5::int) (Some 50) NullNode, treeSize = 2\<rparr>"
  have a: "\<not> containsKey (\<lambda>a b :: int. a - b) (=) ?m 4" by (simp add: containsKey_def)
  from remove_absent_key_changes_nothing [of "\<lambda>a b :: int. a - b" "(=)" ?m 4] a
  show ?thesis by blast
qed

section \<open>Sorted traversal\<close>

lemma fillLists_appends:
  "fillLists t keyList valueList =
     (map_option (\<lambda>xs. xs @ inorderKeys t) keyList,
      map_option (\<lambda>xs. xs @ inorderValues t) valueList)"
proof (induction t arbitrary: keyList valueList)
  case NullNode
  show ?case by (simp add: option.map_ident)
next
  case (MapNode l c k v r)
  show ?case
    by (cases keyList; cases valueList) (simp_all add: MapNode.IH listAddEntry_def)
qed

lemma sizeTracked_lengths:
  assumes "sizeTracked m"
  shows "length (inorderKeys (treeRoot m)) = unat (treeSize m)"
    and "length (inorderValues (treeRoot m)) = unat (treeSize m)"
    and "listNumEntries (inorderKeys (treeRoot m)) = treeSize m"
    and "listNumEntries (inorderValues (treeRoot m)) = treeSize m"
    and "treeSize m = 0 \<Longrightarrow> treeRoot m = NullNode"
proof -
  from assms show k: "length (inorderKeys (treeRoot m)) = unat (treeSize m)"
    by (simp add: sizeTracked_def numNodes_length)
  then show v: "length (inorderValues (treeRoot m)) = unat (treeSize m)"
    by (simp add: length_inorderValues)
  from k show "listNumEntries (inorderKeys (treeRoot m)) = treeSize m"
    by (simp add: listNumEntries_def)
  from v show "listNumEntries (inorderValues (treeRoot m)) = treeSize m"
    by (simp add: listNumEntries_def)
  show "treeRoot m = NullNode" if "treeSize m = 0"
    using k that by (cases "treeRoot m") simp_all
qed

text \<open>
  Claim C10. \<^verbatim>\<open>getSortedList\<close> only appends to the lists it is given: each supplied list
  comes back as the old list followed by new elements, and when the counter is the
  number of nodes the number of new elements is the size of the map. On a map whose
  size is zero it returns both lists as they were and reports nothing.
\<close>

theorem getSortedList_only_appends:
  "(\<exists>ks vs.
      fst (getSortedList m keyList valueList) = map_option (\<lambda>xs. xs @ ks) keyList \<and>
      fst (snd (getSortedList m keyList valueList)) = map_option (\<lambda>xs. xs @ vs) valueList \<and>
      (sizeTracked m \<longrightarrow> length ks = unat (treeSize m) \<and> length vs = unat (treeSize m))) \<and>
   (treeSize m = 0 \<longrightarrow> getSortedList m keyList valueList = (keyList, valueList, []))"
proof (cases "treeSize m = 0")
  case True
  then have r: "getSortedList m keyList valueList = (keyList, valueList, [])"
    by (simp add: getSortedList_def)
  have "fst (getSortedList m keyList valueList) = map_option (\<lambda>xs. xs @ []) keyList \<and>
    fst (snd (getSortedList m keyList valueList)) = map_option (\<lambda>xs. xs @ []) valueList \<and>
    (sizeTracked m \<longrightarrow> length ([] :: 'a list) = unat (treeSize m) \<and>
       length ([] :: 'b option list) = unat (treeSize m))"
    using True r by (simp add: option.map_ident)
  then have "\<exists>ks vs.
      fst (getSortedList m keyList valueList) = map_option (\<lambda>xs. xs @ ks) keyList \<and>
      fst (snd (getSortedList m keyList valueList)) = map_option (\<lambda>xs. xs @ vs) valueList \<and>
      (sizeTracked m \<longrightarrow> length ks = unat (treeSize m) \<and> length vs = unat (treeSize m))"
    by blast
  with r show ?thesis by blast
next
  case False
  have "fst (getSortedList m keyList valueList) =
      map_option (\<lambda>xs. xs @ inorderKeys (treeRoot m)) keyList"
    "fst (snd (getSortedList m keyList valueList)) =
      map_option (\<lambda>xs. xs @ inorderValues (treeRoot m)) valueList"
    using False by (simp_all add: getSortedList_def fillLists_appends)
  with False sizeTracked_lengths(1,2) [of m] show ?thesis by blast
qed

theorem getSortedList_only_appends_witness:
  "sizeTracked \<lparr>treeRoot = MapNode (MapNode NullNode AT_MAP_RED (3::int) (Some (30::nat)) NullNode)
                   AT_MAP_BLACK 5 (Some 50) NullNode, treeSize = 2\<rparr> \<and>
   getSortedList \<lparr>treeRoot = MapNode (MapNode NullNode AT_MAP_RED (3::int) (Some (30::nat)) NullNode)
                   AT_MAP_BLACK 5 (Some 50) NullNode, treeSize = 2\<rparr> (Some [9]) None =
     (Some [9, 3, 5], None, [MapInconsistencyError, SizeMismatchError]) \<and>
   getSortedList \<lparr>treeRoot = (NullNode :: (int, nat) atMapNode), treeSize = 0\<rparr> (Some [9]) None =
     (Some [9], None, [])"
proof -
  let ?m = "\<lparr>treeRoot = MapNode (MapNode NullNode AT_MAP_RED (3::int) (Some (30::nat)) NullNode)
                   AT_MAP_BLACK 5 (Some 50) NullNode, treeSize = 2\<rparr>"
  let ?e = "\<lparr>treeRoot = (NullNode :: (int, nat) atMapNode), treeSize = 0\<rparr>"
  have a: "sizeTracked ?m" by (simp add: sizeTracked_def)
  have b: "treeSize ?e = 0" by simp
  have c: "getSortedList ?m (Some [9]) None =
     (Some [9, 3, 5], None, [MapInconsistencyError, SizeMismatchError])"
    by (simp add: getSortedList_def listAddEntry_def listNumEntries_def)
  from getSortedList_only_appends [of ?e "Some [9]" None] b
  have "getSortedList ?e (Some [9]) None = (Some [9], None, [])" by blast
  with a c show ?thesis by blast
qed

text \<open>
  Claim C5, as amended. When \<^verbatim>\<open>compare\<close> is an ordering of the keys and keys that compare
  as zero are equal for \<^verbatim>\<open>equals\<close>, in a map that satisfies the ordering and uniqueness
  invariants and whose counter is the number of nodes, \<^verbatim>\<open>getSortedList\<close> called with empty
  lists (or with one of them omitted) returns the keys in strictly ascending order
  under \<^verbatim>\<open>compare\<close>, each list has as many elements as the size of the map, and nothing is
  reported.
\<close>

theorem getSortedList_ascending:
  assumes "compareIsOrder cmp" and "\<forall>a b. cmp a b = 0 \<longrightarrow> eq a b"
    and "bstOrdering cmp (treeRoot m)" and "keyUniqueness eq (treeRoot m)" and "sizeTracked m"
  shows "getSortedList m (Some []) (Some []) =
           (Some (inorderKeys (treeRoot m)), Some (inorderValues (treeRoot m)), []) \<and>
         getSortedList m (Some []) None = (Some (inorderKeys (treeRoot m)), None, []) \<and>
         getSortedList m None (Some []) = (None, Some (inorderValues (treeRoot m)), []) \<and>
         sorted_wrt (\<lambda>a b. cmp a b < 0) (inorderKeys (treeRoot m)) \<and>
         length (inorderKeys (treeRoot m)) = unat (treeSize m) \<and>
         length (inorderValues (treeRoot m)) = unat (treeSize m)"
proof -
  note len = sizeTracked_lengths [OF assms(5)]
  have asc: "sorted_wrt (\<lambda>a b. cmp a b < 0) (inorderKeys (treeRoot m))"
    using ascending_of_bstOrdering [OF assms(1,2,3,4)] by (simp add: keysAscending_def)
  have lists: "getSortedList m (Some []) (Some []) =
           (Some (inorderKeys (treeRoot m)), Some (inorderValues (treeRoot m)), [])"
    "getSortedList m (Some []) None = (Some (inorderKeys (treeRoot m)), None, [])"
    "getSortedList m None (Some []) = (None, Some (inorderValues (treeRoot m)), [])"
    using len(3,4,5) by (auto simp: getSortedList_def fillLists_appends)
  from lists asc len(1,2) show ?thesis by simp
qed

theorem getSortedList_ascending_witness:
  "compareIsOrder (\<lambda>a b :: int. a - b) \<and>
   sizeTracked \<lparr>treeRoot = MapNode (MapNode NullNode AT_MAP_RED (3::int) (Some (30::nat)) NullNode)
                   AT_MAP_BLACK 5 (Some 50) NullNode, treeSize = 2\<rparr> \<and>
   getSortedList \<lparr>treeRoot = MapNode (MapNode NullNode AT_MAP_RED (3::int) (Some (30::nat)) NullNode)
                   AT_MAP_BLACK 5 (Some 50) NullNode, treeSize = 2\<rparr> (Some []) (Some []) =
     (Some [3, 5], Some [Some 30, Some 50], [])"
proof -
  let ?m = "\<lparr>treeRoot = MapNode (MapNode NullNode AT_MAP_RED (3::int) (Some (30::nat)) NullNode)
                   AT_MAP_BLACK 5 (Some 50) NullNode, treeSize = 2\<rparr>"
  have a: "compareIsOrder (\<lambda>a b :: int. a - b)" by (rule compareIsOrder_cmpInt)
  have b: "\<forall>a b :: int. a - b = 0 \<longrightarrow> a = b" by simp
  have c: "bstOrdering (\<lambda>a b :: int. a - b) (treeRoot ?m)" by simp
  have d: "keyUniqueness (=) (treeRoot ?m)" by (simp add: keyUniqueness_def)
  have e: "sizeTracked ?m" by (simp add: sizeTracked_def)
  from getSortedList_ascending [OF a b c d e] a e show ?thesis by simp
qed

text \<open>
  With keys that tie under \<^verbatim>\<open>compare\<close> the claim as stated fails: the key output of
  \<open>tiedMap\<close> holds two keys that compare as zero.
\<close>

theorem getSortedList_tied_keys_not_ascending:
  "compareIsOrder compareFirst \<and> redBlackInvariants compareFirst equalsBoth tiedMap \<and>
   sizeTracked tiedMap \<and>
   getSortedList tiedMap (Some []) (Some []) =
     (Some [(1, 0), (1, 1)], Some [Some 10, Some 11], []) \<and>
   \<not> sorted_wrt (\<lambda>a b. compareFirst a b < 0) [(1, 0), (1, 1)]"
  by (simp add: compareIsOrder_compareFirst tiedMap_eq redBlackInvariants_def keyUniqueness_def
      rootBlack_def sizeTracked_def getSortedList_def listAddEntry_def listNumEntries_def
      compareFirst_def equalsBoth_def)

section \<open>changeValue\<close>

lemma findNode_same_place:
  "findNode cmp eq t ps key = Some (MapNode l c k v r, ps') \<Longrightarrow>
   \<exists>qs. ps' = qs @ ps \<and>
     (\<forall>l' c' v' r' ps2. findNode cmp eq (rootOf (MapNode l' c' k v' r') qs) ps2 key =
        Some (MapNode l' c' k v' r', qs @ ps2))"
proof (induction t arbitrary: ps)
  case NullNode
  then show ?case by simp
next
  case (MapNode tl tc k0 v0 tr)
  show ?case
  proof (cases "eq k0 key")
    case True
    with MapNode.prems have "ps' = [] @ ps" "k = k0" by simp_all
    with True show ?thesis by (intro exI [of _ "[]"]) simp
  next
    case False
    show ?thesis
    proof (cases "0 < cmp key k0")
      case True
      with False MapNode.prems
      have "findNode cmp eq tr (RightOf tl tc k0 v0 # ps) key = Some (MapNode l c k v r, ps')"
        by simp
      from MapNode.IH(2) [OF this] obtain qs where qs: "ps' = qs @ RightOf tl tc k0 v0 # ps"
        "\<And>l' c' v' r' ps2. findNode cmp eq (rootOf (MapNode l' c' k v' r') qs) ps2 key =
          Some (MapNode l' c' k v' r', qs @ ps2)" by blast
      show ?thesis
        using qs False True
        by (intro exI [of _ "qs @ [RightOf tl tc k0 v0]"]) (simp add: rootOf_append)
    next
      case nr: False
      with False MapNode.prems
      have "findNode cmp eq tl (LeftOf tc k0 v0 tr # ps) key = Some (MapNode l c k v r, ps')"
        by simp
      from MapNode.IH(1) [OF this] obtain qs where qs: "ps' = qs @ LeftOf tc k0 v0 tr # ps"
        "\<And>l' c' v' r' ps2. findNode cmp eq (rootOf (MapNode l' c' k v' r') qs) ps2 key =
          Some (MapNode l' c' k v' r', qs @ ps2)" by blast
      show ?thesis
        using qs False nr
        by (intro exI [of _ "qs @ [LeftOf tc k0 v0 tr]"]) (simp add: rootOf_append)
    qed
  qed
qed

lemma inorderEntries_rootOf:
  "inorderEntries (rootOf t ps) = valuesBefore ps @ inorderEntries t @ valuesAfter ps"
proof (induction ps arbitrary: t)
  case Nil
  show ?case by simp
next
  case (Cons p ps)
  show ?case by (cases p) (simp_all add: Cons.IH)
qed

lemma dropValues_rootOf_cong:
  "dropValues t = dropValues t' \<Longrightarrow> dropValues (rootOf t ps) = dropValues (rootOf t' ps)"
proof (induction ps arbitrary: t t')
  case Nil
  then show ?case by simp
next
  case (Cons p ps)
  have "dropValues (plug p t) = dropValues (plug p t')"
    using Cons.prems by (cases p) simp_all
  from Cons.IH [OF this] show ?case by simp
qed

lemma changeValue_at_node:
  assumes found: "findNode cmp eq (treeRoot m) [] key = Some (MapNode l c k v r, ps)"
  shows "changeValue cmp eq m key newValue =
      (v, m\<lparr>treeRoot := rootOf (MapNode l c k newValue r) ps\<rparr>)"
    and "getValue cmp eq (m\<lparr>treeRoot := rootOf (MapNode l c k newValue r) ps\<rparr>) key = newValue"
    and "inorderEntries (treeRoot m) =
      (valuesBefore ps @ inorderEntries l) @ (k, v) # (inorderEntries r @ valuesAfter ps)"
    and "inorderEntries (rootOf (MapNode l c k newValue r) ps) =
      (valuesBefore ps @ inorderEntries l) @ (k, newValue) # (inorderEntries r @ valuesAfter ps)"
    and "dropValues (rootOf (MapNode l c k newValue r) ps) = dropValues (treeRoot m)"
proof -
  let ?n = "MapNode l c k v r"
  from findNode_found [of cmp eq "treeRoot m" "[]" key ?n ps] found
  have root: "rootOf ?n ps = treeRoot m" by auto
  show "changeValue cmp eq m key newValue =
      (v, m\<lparr>treeRoot := rootOf (MapNode l c k newValue r) ps\<rparr>)"
    using found by (simp add: changeValue_def)
  from findNode_same_place [of cmp eq "treeRoot m" "[]" key l c k v r ps] found
  have "findNode cmp eq (rootOf (MapNode l c k newValue r) ps) [] key =
      Some (MapNode l c k newValue r, ps)" by auto
  then show "getValue cmp eq (m\<lparr>treeRoot := rootOf (MapNode l c k newValue r) ps\<rparr>) key =
      newValue"
    by (simp add: getValue_def)
  show "inorderEntries (treeRoot m) =
      (valuesBefore ps @ inorderEntries l) @ (k, v) # (inorderEntries r @ valuesAfter ps)"
    using root inorderEntries_rootOf [of ?n ps] by simp
  show "inorderEntries (rootOf (MapNode l c k newValue r) ps) =
      (valuesBefore ps @ inorderEntries l) @ (k, newValue) # (inorderEntries r @ valuesAfter ps)"
    by (simp add: inorderEntries_rootOf)
  show "dropValues (rootOf (MapNode l c k newValue r) ps) = dropValues (treeRoot m)"
    using dropValues_rootOf_cong [of "MapNode l c k newValue r" ?n ps] root by simp
qed

text \<open>
  Claim C8, as amended. A key is present when it equals a stored key, absent when it
  equals none. When \<^verbatim>\<open>compare\<close> is an ordering of the keys and \<^verbatim>\<open>equals\<close> agrees with it, in
  a map that satisfies the ordering and uniqueness invariants \<^verbatim>\<open>changeValue\<close> with a key
  equal to the key of a stored entry returns the value of that entry and stores the
  new value in its node: that entry is the only one that changes, shape, colours, keys
  and size stay, and \<^verbatim>\<open>getValue\<close> gives the new value afterwards. For an absent key, in
  every map and for every \<^verbatim>\<open>compare\<close> and \<^verbatim>\<open>equals\<close>, it returns null and the map is the same
  as before.
\<close>

theorem changeValue_stored_or_noop:
  "(compareIsOrder cmp \<and> equalsAgrees cmp eq \<and> bstOrdering cmp (treeRoot m) \<and>
    keyUniqueness eq (treeRoot m) \<longrightarrow>
      (\<forall>(k, v) \<in> set (inorderEntries (treeRoot m)). \<forall>key newValue. eq k key \<longrightarrow>
         fst (changeValue cmp eq m key newValue) = v \<and>
         getValue cmp eq (snd (changeValue cmp eq m key newValue)) key = newValue \<and>
         (\<exists>bs as. inorderEntries (treeRoot m) = bs @ (k, v) # as \<and>
            inorderEntries (treeRoot (snd (changeValue cmp eq m key newValue))) =
              bs @ (k, newValue) # as) \<and>
         dropValues (treeRoot (snd (changeValue cmp eq m key newValue))) =
           dropValues (treeRoot m) \<and>
         treeSize (snd (changeValue cmp eq m key newValue)) = treeSize m)) \<and>
   (\<forall>key newValue. (\<forall>k \<in> set (inorderKeys (treeRoot m)). \<not> eq k key) \<longrightarrow>
      changeValue cmp eq m key newValue = (None, m))"
proof -
  have absent: "changeValue cmp eq m key newValue = (None, m)"
    if "\<forall>k \<in> set (inorderKeys (treeRoot m)). \<not> eq k key" for key newValue
  proof -
    from that have "findNode cmp eq (treeRoot m) [] key = None" by (rule findNode_absent)
    then show ?thesis by (simp add: changeValue_def)
  qed
  have stored: "fst (changeValue cmp eq m key newValue) = v \<and>
         getValue cmp eq (snd (changeValue cmp eq m key newValue)) key = newValue \<and>
         (\<exists>bs as. inorderEntries (treeRoot m) = bs @ (k, v) # as \<and>
            inorderEntries (treeRoot (snd (changeValue cmp eq m key newValue))) =
              bs @ (k, newValue) # as) \<and>
         dropValues (treeRoot (snd (changeValue cmp eq m key newValue))) =
           dropValues (treeRoot m) \<and>
         treeSize (snd (changeValue cmp eq m key newValue)) = treeSize m"
    if ord: "compareIsOrder cmp" and agr: "equalsAgrees cmp eq"
      and bst: "bstOrdering cmp (treeRoot m)" and uniq: "keyUniqueness eq (treeRoot m)"
      and e: "(k, v) \<in> set (inorderEntries (treeRoot m))" and k: "eq k key"
    for k v key newValue
  proof -
    from agr have imp: "\<forall>a b. cmp a b = 0 \<longrightarrow> eq a b" by (simp add: equalsAgrees_def)
    from ascending_of_bstOrdering [OF ord imp bst uniq]
    have asc: "keysAscending cmp (inorderKeys (treeRoot m))" .
    from findNode_stored [where ps = "[]", OF ord agr asc e k]
    obtain l c r ps where found:
      "findNode cmp eq (treeRoot m) [] key = Some (MapNode l c k v r, ps)" by blast
    note at = changeValue_at_node [OF found]
    have ex: "\<exists>bs as. inorderEntries (treeRoot m) = bs @ (k, v) # as \<and>
        inorderEntries (rootOf (MapNode l c k newValue r) ps) = bs @ (k, newValue) # as"
    proof (intro exI conjI)
      show "inorderEntries (treeRoot m) =
        (valuesBefore ps @ inorderEntries l) @ (k, v) # (inorderEntries r @ valuesAfter ps)"
        by (rule at(3))
      show "inorderEntries (rootOf (MapNode l c k newValue r) ps) =
        (valuesBefore ps @ inorderEntries l) @ (k, newValue) # (inorderEntries r @ valuesAfter ps)"
        by (rule at(4))
    qed
    show ?thesis
      unfolding at(1) using at(2) at(5) ex by simp
  qed
  show ?thesis
  proof (intro conjI impI allI ballI)
    fix key newValue
    assume "\<forall>k \<in> set (inorderKeys (treeRoot m)). \<not> eq k key"
    then show "changeValue cmp eq m key newValue = (None, m)" by (rule absent)
  next
    fix x
    assume h: "compareIsOrder cmp \<and> equalsAgrees cmp eq \<and> bstOrdering cmp (treeRoot m) \<and>
      keyUniqueness eq (treeRoot m)"
      and x: "x \<in> set (inorderEntries (treeRoot m))"
    obtain k v where kv: "x = (k, v)" by (cases x)
    from h have ord: "compareIsOrder cmp" and agr: "equalsAgrees cmp eq"
      and bst: "bstOrdering cmp (treeRoot m)" and uniq: "keyUniqueness eq (treeRoot m)"
      by simp_all
    from x kv have e: "(k, v) \<in> set (inorderEntries (treeRoot m))" by simp
    have "\<forall>key newValue. eq k key \<longrightarrow>
         fst (changeValue cmp eq m key newValue) = v \<and>
         getValue cmp eq (snd (changeValue cmp eq m key newValue)) key = newValue \<and>
         (\<exists>bs as. inorderEntries (treeRoot m) = bs @ (k, v) # as \<and>
            inorderEntries (treeRoot (snd (changeValue cmp eq m key newValue))) =
              bs @ (k, newValue) # as) \<and>
         dropValues (treeRoot (snd (changeValue cmp eq m key newValue))) =
           dropValues (treeRoot m) \<and>
         treeSize (snd (changeValue cmp eq m key newValue)) = treeSize m"
      using stored [OF ord agr bst uniq e] by blast
    then show "case x of (k, v) \<Rightarrow> \<forall>key newValue. eq k key \<longrightarrow>
         fst (changeValue cmp eq m key newValue) = v \<and>
         getValue cmp eq (snd (changeValue cmp eq m key newValue)) key = newValue \<and>
         (\<exists>bs as. inorderEntries (treeRoot m) = bs @ (k, v) # as \<and>
            inorderEntries (treeRoot (snd (changeValue cmp eq m key newValue))) =
              bs @ (k, newValue) # as) \<and>
         dropValues (treeRoot (snd (changeValue cmp eq m key newValue))) =
           dropValues (treeRoot m) \<and>
         treeSize (snd (changeValue cmp eq m key newValue)) = treeSize m"
      unfolding kv by (simp only: prod.case)
  qed
qed

theorem changeValue_stored_or_noop_witness:
  "compareIsOrder (\<lambda>a b :: int. a - b) \<and> equalsAgrees (\<lambda>a b :: int. a - b) (=) \<and>
   fst (changeValue (\<lambda>a b :: int. a - b) (=)
     \<lparr>treeRoot = MapNode (MapNode NullNode AT_MAP_RED 3 (Some (30::nat)) NullNode)
                   AT_MAP_BLACK 5 (Some 50) NullNode, treeSize = 2\<rparr> 3 (Some 31)) = Some 30 \<and>
   getValue (\<lambda>a b :: int. a - b) (=)
     (snd (changeValue (\<lambda>a b :: int. a - b) (=)
       \<lparr>treeRoot = MapNode (MapNode NullNode AT_MAP_RED 3 (Some (30::nat)) NullNode)
                     AT_MAP_BLACK 5 (Some 50) NullNode, treeSize = 2\<rparr> 3 (Some 31))) 3 = Some 31 \<and>
   treeSize (snd (changeValue (\<lambda>a b :: int. a - b) (=)
     \<lparr>treeRoot = MapNode (MapNode NullNode AT_MAP_RED 3 (Some (30::nat)) NullNode)
                   AT_MAP_BLACK 5 (Some 50) NullNode, treeSize = 2\<rparr> 3 (Some 31))) = 2 \<and>
   changeValue (\<lambda>a b :: int. a - b) (=)
     \<lparr>treeRoot = MapNode (MapNode NullNode AT_MAP_RED 3 (Some (30::nat)) NullNode)
                   AT_MAP_BLACK 5 (Some 50) NullNode, treeSize = 2\<rparr> 4 (Some 41) =
     (None, \<lparr>treeRoot = MapNode (MapNode NullNode AT_MAP_RED 3 (Some (30::nat)) NullNode)
                   AT_MAP_BLACK 5 (Some 50) NullNode, treeSize = 2\<rparr>)"
proof -
  let ?m = "\<lparr>treeRoot = MapNode (MapNode NullNode AT_MAP_RED 3 (Some (30::nat)) NullNode)
                   AT_MAP_BLACK (5::int) (Some 50) NullNode, treeSize = 2\<rparr>"
  have a: "compareIsOrder (\<lambda>a b :: int. a - b)" by (rule compareIsOrder_cmpInt)
  have b: "equalsAgrees (\<lambda>a b :: int. a - b) (=)" by (simp add: equalsAgrees_def)
  have c: "bstOrdering (\<lambda>a b :: int. a - b) (treeRoot ?m)" by simp
  have d: "keyUniqueness (=) (treeRoot ?m)" by (simp add: keyUniqueness_def)
  from changeValue_stored_or_noop [of "\<lambda>a b :: int. a - b" "(=)" ?m] a b c d
  show ?thesis by simp
qed

text \<open>
  Without the agreement the claim as stated fails: the key \<open>(1, 1)\<close> is stored in \<open>tiedMap\<close>
  with the value 11, \<^verbatim>\<open>findNode\<close> looks for it on the left of the root, and \<^verbatim>\<open>changeValue\<close>
  returns null and stores nothing.
\<close>

theorem changeValue_misses_tied_key:
  "compareIsOrder compareFirst \<and> redBlackInvariants compareFirst equalsBoth tiedMap \<and>
   ((1, 1), Some 11) \<in> set (inorderEntries (treeRoot tiedMap)) \<and> equalsBoth (1, 1) (1, 1) \<and>
   changeValue compareFirst equalsBoth tiedMap (1, 1) (Some 5) = (None, tiedMap)"
  by (simp add: compareIsOrder_compareFirst tiedMap_eq redBlackInvariants_def keyUniqueness_def
      rootBlack_def changeValue_def compareFirst_def equalsBoth_def)

section \<open>The successor and the recursion of deleteNode\<close>

lemma leftLinks_append: "leftLinks (ps @ qs) = (leftLinks ps \<and> leftLinks qs)"
  by (induction ps rule: leftLinks.induct) simp_all

lemma leftLinks_keysBefore: "leftLinks ps \<Longrightarrow> keysBefore ps = []"
  by (induction ps rule: leftLinks.induct) simp_all

lemma leftLinks_valuesBefore: "leftLinks ps \<Longrightarrow> valuesBefore ps = []"
  by (induction ps rule: leftLinks.induct) simp_all

lemma leftmost_place:
  "t \<noteq> NullNode \<Longrightarrow> leftmost t ps = (s, sp) \<Longrightarrow>
   \<exists>qs sc sk sv sr. sp = qs @ ps \<and> s = MapNode NullNode sc sk sv sr \<and> rootOf s qs = t \<and>
     leftLinks qs"
proof (induction t arbitrary: ps)
  case NullNode
  then show ?case by simp
next
  case (MapNode l c k v r)
  show ?case
  proof (cases l)
    case NullNode
    with MapNode.prems(2) have "s = MapNode NullNode c k v r" "sp = [] @ ps" by simp_all
    with NullNode show ?thesis by (intro exI [of _ "[]"]) auto
  next
    case (MapNode ll lc lk lv lr)
    with MapNode.prems(2) have "leftmost l (LeftOf c k v r # ps) = (s, sp)" by simp
    from MapNode.IH(1) [OF _ this] MapNode obtain qs sc sk sv sr where
      q: "sp = qs @ LeftOf c k v r # ps" "s = MapNode NullNode sc sk sv sr"
        "rootOf s qs = l" "leftLinks qs" by auto
    show ?thesis
      using q by (intro exI [of _ "qs @ [LeftOf c k v r]"])
        (simp add: rootOf_append leftLinks_append)
  qed
qed

lemma getInorderSuccessor_place:
  assumes "r \<noteq> NullNode"
  shows "\<exists>sc sk sv sr sp. getInorderSuccessor (MapNode l c k v r) =
       Some (MapNode NullNode sc sk sv sr, sp) \<and>
     rootOf (MapNode NullNode sc sk sv sr) sp = r \<and> leftLinks sp"
proof -
  obtain s sp where lm: "leftmost r [] = (s, sp)" by (cases "leftmost r []")
  from leftmost_place [OF assms lm] lm assms show ?thesis by auto
qed

lemma deleteNode_at_most_one_child:
  "l = NullNode \<or> r = NullNode \<Longrightarrow>
   deleteNode (MapNode l c k v r) ps =
     (if c = AT_MAP_BLACK then rebalanceDelete (if l \<noteq> NullNode then l else r) ps
      else Some (rootOf (if l \<noteq> NullNode then l else r) ps))"
  by (auto simp: deleteNode.simps)

lemma deleteNode_successor_step:
  assumes "l \<noteq> NullNode" and "r \<noteq> NullNode"
  shows "\<exists>sc sk sv sr sp.
     getInorderSuccessor (MapNode l c k v r) = Some (MapNode NullNode sc sk sv sr, sp) \<and>
     rootOf (MapNode NullNode sc sk sv sr) sp = r \<and> leftLinks sp \<and>
     deleteNode (MapNode l c k v r) ps =
       deleteNode (MapNode NullNode sc k v sr) (sp @ RightOf l c sk sv # ps)"
proof -
  from getInorderSuccessor_place [OF assms(2), of l c k v]
  obtain sc sk sv sr sp where
    s: "getInorderSuccessor (MapNode l c k v r) = Some (MapNode NullNode sc sk sv sr, sp)"
      "rootOf (MapNode NullNode sc sk sv sr) sp = r" "leftLinks sp" by blast
  have "deleteNode (MapNode l c k v r) ps =
       deleteNode (MapNode NullNode sc k v sr) (sp @ RightOf l c sk sv # ps)"
    using assms s(1) by (subst deleteNode.simps) simp
  with s show ?thesis by blast
qed

text \<open>
  Claim C6. For a node with two children \<^verbatim>\<open>getInorderSuccessor\<close> returns a node: the one
  reached from the right child by left links only, whose key is the first key of the
  right subtree in order and which has no left child. \<^verbatim>\<open>deleteNode\<close> and \<^verbatim>\<open>removeNode\<close> on a
  node with two children are the same function applied to that successor, after the
  swap of the keys and values of the two nodes, and that one recursive activation
  takes the branch for at most one child: it unlinks the successor and calls nothing
  but \<^verbatim>\<open>rebalanceDelete\<close>. Both functions are total: the termination proof of \<open>deleteNode\<close>
  above rests on the missing left child of the successor.
\<close>

theorem deleteNode_two_children:
  assumes "l \<noteq> NullNode" and "r \<noteq> NullNode"
  shows "\<exists>sc sk sv sr sp.
     getInorderSuccessor (MapNode l c k v r) = Some (MapNode NullNode sc sk sv sr, sp) \<and>
     rootOf (MapNode NullNode sc sk sv sr) sp = r \<and> leftLinks sp \<and>
     inorderKeys r = sk # inorderKeys sr @ keysAfter sp \<and>
     deleteNode (MapNode l c k v r) ps =
       deleteNode (MapNode NullNode sc k v sr) (sp @ RightOf l c sk sv # ps) \<and>
     removeNode (MapNode l c k v r) ps =
       removeNode (MapNode NullNode sc k v sr) (sp @ RightOf l c sk sv # ps) \<and>
     deleteNode (MapNode NullNode sc k v sr) (sp @ RightOf l c sk sv # ps) =
       (if sc = AT_MAP_BLACK then rebalanceDelete sr (sp @ RightOf l c sk sv # ps)
        else Some (rootOf sr (sp @ RightOf l c sk sv # ps))) \<and>
     removeNode (MapNode NullNode sc k v sr) (sp @ RightOf l c sk sv # ps) =
       (if sc = AT_MAP_BLACK then rebalanceDelete sr (sp @ RightOf l c sk sv # ps)
        else Some (rootOf sr (sp @ RightOf l c sk sv # ps)))"
proof -
  from deleteNode_successor_step [OF assms, of c k v ps]
  obtain sc sk sv sr sp where
    s: "getInorderSuccessor (MapNode l c k v r) = Some (MapNode NullNode sc sk sv sr, sp)"
      "rootOf (MapNode NullNode sc sk sv sr) sp = r" "leftLinks sp"
    and step: "deleteNode (MapNode l c k v r) ps =
       deleteNode (MapNode NullNode sc k v sr) (sp @ RightOf l c sk sv # ps)" by blast
  have keys: "inorderKeys r = sk # inorderKeys sr @ keysAfter sp"
    using inorderKeys_rootOf [of "MapNode NullNode sc sk sv sr" sp] s(2,3)
    by (simp add: leftLinks_keysBefore)
  have last: "deleteNode (MapNode NullNode sc k v sr) (sp @ RightOf l c sk sv # ps) =
       (if sc = AT_MAP_BLACK then rebalanceDelete sr (sp @ RightOf l c sk sv # ps)
        else Some (rootOf sr (sp @ RightOf l c sk sv # ps)))"
    by (simp add: deleteNode_at_most_one_child)
  from s keys step last show ?thesis by (simp add: removeNode_def)
qed

theorem deleteNode_two_children_witness:
  "getInorderSuccessor
     (MapNode (MapNode NullNode AT_MAP_BLACK (1::int) (Some (10::nat)) NullNode) AT_MAP_BLACK 2 (Some 20)
        (MapNode (MapNode NullNode AT_MAP_RED 3 (Some 30) NullNode) AT_MAP_BLACK 4 (Some 40) NullNode)) =
     Some (MapNode NullNode AT_MAP_RED 3 (Some 30) NullNode, [LeftOf AT_MAP_BLACK 4 (Some 40) NullNode]) \<and>
   deleteNode
     (MapNode (MapNode NullNode AT_MAP_BLACK (1::int) (Some (10::nat)) NullNode) AT_MAP_BLACK 2 (Some 20)
        (MapNode (MapNode NullNode AT_MAP_RED 3 (Some 30) NullNode) AT_MAP_BLACK 4 (Some 40) NullNode)) [] =
     Some (MapNode (MapNode NullNode AT_MAP_BLACK 1 (Some 10) NullNode) AT_MAP_BLACK 3 (Some 30)
        (MapNode NullNode AT_MAP_BLACK 4 (Some 40) NullNode))"
proof -
  let ?l = "MapNode NullNode AT_MAP_BLACK (1::int) (Some (10::nat)) NullNode"
  let ?r = "MapNode (MapNode NullNode AT_MAP_RED (3::int) (Some (30::nat)) NullNode)
     AT_MAP_BLACK 4 (Some 40) NullNode"
  have a: "?l \<noteq> NullNode" by simp
  have b: "?r \<noteq> NullNode" by simp
  have c: "getInorderSuccessor (MapNode ?l AT_MAP_BLACK 2 (Some 20) ?r) =
     Some (MapNode NullNode AT_MAP_RED 3 (Some 30) NullNode, [LeftOf AT_MAP_BLACK 4 (Some 40) NullNode])"
    by simp
  from deleteNode_two_children [OF a b, of AT_MAP_BLACK 2 "Some 20" "[]"] c
  show ?thesis by simp
qed

section \<open>rebalanceDelete\<close>

subsection \<open>The activation, case by case\<close>

lemma rebalanceDeleteBody_red_child:
  "isRed child \<Longrightarrow> rebalanceDeleteBody child (p # rest) =
     Rebalanced (rootOf (setColor AT_MAP_BLACK child) (p # rest))"
  by (cases p) simp_all

lemma rebalanceDeleteBody_no_sibling:
  "\<not> isRed child \<Longrightarrow>
   rebalanceDeleteBody child (LeftOf pc pk pv NullNode # rest) = NullDereference"
  "\<not> isRed child \<Longrightarrow>
   rebalanceDeleteBody child (RightOf NullNode pc pk pv # rest) = NullDereference"
  by simp_all

lemma rebalanceDeleteBody_left_black_sibling:
  "\<not> isRed child \<Longrightarrow>
   rebalanceDeleteBody child (LeftOf pc pk pv (MapNode sl AT_MAP_BLACK sk sv sr) # rest) =
     gapOnLeft child pc pk pv sl sk sv sr rest"
  by (cases sl rule: isRed.cases) (auto simp: gapOnLeft_def)

lemma rebalanceDeleteBody_left_red_sibling:
  "\<not> isRed child \<Longrightarrow>
   rebalanceDeleteBody child
     (LeftOf pc pk pv (MapNode (MapNode sll slc slk slv slr) AT_MAP_RED sk sv sr) # rest) =
     gapOnLeft child AT_MAP_RED pk pv sll slk slv slr (LeftOf AT_MAP_BLACK sk sv sr # rest)"
  by (cases sll rule: isRed.cases) (auto simp: gapOnLeft_def)

lemma rebalanceDeleteBody_left_red_sibling_null:
  "\<not> isRed child \<Longrightarrow>
   rebalanceDeleteBody child (LeftOf pc pk pv (MapNode NullNode AT_MAP_RED sk sv sr) # rest) =
     NullDereference"
  by simp

lemma rebalanceDeleteBody_right_black_sibling:
  "\<not> isRed child \<Longrightarrow>
   rebalanceDeleteBody child (RightOf (MapNode sl AT_MAP_BLACK sk sv sr) pc pk pv # rest) =
     gapOnRight child pc pk pv sl sk sv sr rest"
  by (cases sr rule: isRed.cases) (auto simp: gapOnRight_def)

lemma rebalanceDeleteBody_right_red_sibling:
  "\<not> isRed child \<Longrightarrow>
   rebalanceDeleteBody child
     (RightOf (MapNode sl AT_MAP_RED sk sv (MapNode srl src srk srv srr)) pc pk pv # rest) =
     gapOnRight child AT_MAP_RED pk pv srl srk srv srr (RightOf sl AT_MAP_BLACK sk sv # rest)"
  by (cases srr rule: isRed.cases) (auto simp: gapOnRight_def)

lemma rebalanceDeleteBody_right_red_sibling_null:
  "\<not> isRed child \<Longrightarrow>
   rebalanceDeleteBody child (RightOf (MapNode sl AT_MAP_RED sk sv NullNode) pc pk pv # rest) =
     NullDereference"
  by simp

subsection \<open>Colours and black heights after rebalanceDelete\<close>

lemma rebalance_replace:
  assumes "noRedRed S" "isRed S \<longrightarrow> isRed G" "blackBalanced S" "blackHeight G = blackHeight S"
    and "noRedRed (rootOf G rest)" "blackBalanced (rootOf G rest)"
  shows "noRedRed (rootOf S rest) \<and> blackBalanced (rootOf S rest)"
proof
  show "noRedRed (rootOf S rest)"
    by (rule noRedRed_rootOf_replace [OF assms(1,2,5)])
  show "blackBalanced (rootOf S rest)"
    by (rule blackBalanced_rootOf_replace [OF assms(4) assms(3) assms(6)])
qed

lemma outcomeOk_Rebalanced:
  assumes "noRedRed S" "isRed S \<longrightarrow> isRed G" "blackBalanced S" "blackHeight G = blackHeight S"
    and "noRedRed (rootOf G rest)" "blackBalanced (rootOf G rest)"
  shows "outcomeOk (Rebalanced (rootOf S rest))"
  using rebalance_replace [OF assms] by (simp add: outcomeOk_def noRedRed_setColor_black)

lemma noRedRed_not_red: "\<not> isRed t \<Longrightarrow> noRedRed (setColor AT_MAP_BLACK t) \<Longrightarrow> noRedRed t"
  by (cases t rule: isRed.cases) simp_all

lemma gapOnLeft_ok:
  assumes ch: "blackBalanced ch" "noRedRed ch"
    and s: "blackBalanced sl" "blackBalanced sr" "noRedRed sl" "noRedRed sr"
      "blackHeight sl = blackHeight ch" "blackHeight sr = blackHeight ch"
    and T0: "noRedRed (rootOf T0 ps)" "blackBalanced (rootOf T0 ps)"
      "blackHeight T0 = Suc (blackHeight ch) + (if pc = AT_MAP_BLACK then 1 else 0)"
      "isRed T0 = (pc = AT_MAP_RED)"
  shows "outcomeOk (gapOnLeft ch pc pk pv sl sk sv sr ps)"
proof (cases "\<not> isRed sl \<and> \<not> isRed sr")
  case True
  let ?c = "MapNode ch pc pk pv (MapNode sl AT_MAP_RED sk sv sr)"
  have "deficit ?c ps"
    unfolding deficit_def
  proof (intro conjI exI [of _ T0])
    show "blackBalanced ?c" using ch s by simp
    show "noRedRed (setColor AT_MAP_BLACK ?c)" using ch s True by simp
    show "blackHeight T0 = Suc (blackHeight ?c)" using T0(3) by simp
    show "isRed ?c \<or> \<not> isRed T0" using T0(4) by (cases pc) simp_all
  qed (rule T0)+
  with True show ?thesis by (simp add: gapOnLeft_def outcomeOk_def)
next
  case False
  show ?thesis
  proof (cases "isRed sl")
    case True
    then obtain sll slk slv slr where sl: "sl = MapNode sll AT_MAP_RED slk slv slr"
      by (auto elim: isRedE)
    let ?S = "MapNode (MapNode ch AT_MAP_BLACK pk pv sll) pc slk slv
                (MapNode slr AT_MAP_BLACK sk sv sr)"
    have "outcomeOk (Rebalanced (rootOf ?S ps))"
    proof (rule outcomeOk_Rebalanced [where G = T0])
      show "noRedRed ?S" using ch s sl by simp
      show "isRed ?S \<longrightarrow> isRed T0" using T0(4) by (cases pc) simp_all
      show "blackBalanced ?S" using ch s sl by simp
      show "blackHeight T0 = blackHeight ?S" using T0(3) s sl by simp
    qed (rule T0)+
    with sl show ?thesis by (simp add: gapOnLeft_def)
  next
    case nl: False
    with False have sr: "isRed sr" by simp
    let ?S = "MapNode (MapNode ch AT_MAP_BLACK pk pv sl) pc sk sv (setColor AT_MAP_BLACK sr)"
    have "outcomeOk (Rebalanced (rootOf ?S ps))"
    proof (rule outcomeOk_Rebalanced [where G = T0])
      show "noRedRed ?S" using ch s by (simp add: noRedRed_setColor_black isRed_setColor_black)
      show "isRed ?S \<longrightarrow> isRed T0" using T0(4) by (cases pc) simp_all
      show "blackBalanced ?S"
        using ch s sr by (simp add: blackBalanced_setColor blackHeight_setColor_red_to_black)
      show "blackHeight T0 = blackHeight ?S" using T0(3) s by simp
    qed (rule T0)+
    moreover have "gapOnLeft ch pc pk pv sl sk sv sr ps = Rebalanced (rootOf ?S ps)"
      using nl sr by (cases sl rule: isRed.cases) (simp_all add: gapOnLeft_def)
    ultimately show ?thesis by simp
  qed
qed

lemma gapOnRight_ok:
  assumes ch: "blackBalanced ch" "noRedRed ch"
    and s: "blackBalanced sl" "blackBalanced sr" "noRedRed sl" "noRedRed sr"
      "blackHeight sl = blackHeight ch" "blackHeight sr = blackHeight ch"
    and T0: "noRedRed (rootOf T0 ps)" "blackBalanced (rootOf T0 ps)"
      "blackHeight T0 = Suc (blackHeight ch) + (if pc = AT_MAP_BLACK then 1 else 0)"
      "isRed T0 = (pc = AT_MAP_RED)"
  shows "outcomeOk (gapOnRight ch pc pk pv sl sk sv sr ps)"
proof (cases "\<not> isRed sl \<and> \<not> isRed sr")
  case True
  let ?c = "MapNode (MapNode sl AT_MAP_RED sk sv sr) pc pk pv ch"
  have "deficit ?c ps"
    unfolding deficit_def
  proof (intro conjI exI [of _ T0])
    show "blackBalanced ?c" using ch s by simp
    show "noRedRed (setColor AT_MAP_BLACK ?c)" using ch s True by simp
    show "blackHeight T0 = Suc (blackHeight ?c)" using T0(3) s by simp
    show "isRed ?c \<or> \<not> isRed T0" using T0(4) by (cases pc) simp_all
  qed (rule T0)+
  with True show ?thesis by (simp add: gapOnRight_def outcomeOk_def)
next
  case False
  show ?thesis
  proof (cases "isRed sr")
    case True
    then obtain srl srk srv srr where sr: "sr = MapNode srl AT_MAP_RED srk srv srr"
      by (auto elim: isRedE)
    let ?S = "MapNode (MapNode sl AT_MAP_BLACK sk sv srl) pc srk srv
                (MapNode srr AT_MAP_BLACK pk pv ch)"
    have "outcomeOk (Rebalanced (rootOf ?S ps))"
    proof (rule outcomeOk_Rebalanced [where G = T0])
      show "noRedRed ?S" using ch s sr by simp
      show "isRed ?S \<longrightarrow> isRed T0" using T0(4) by (cases pc) simp_all
      show "blackBalanced ?S" using ch s sr by simp
      show "blackHeight T0 = blackHeight ?S" using T0(3) s sr by simp
    qed (rule T0)+
    with sr show ?thesis by (simp add: gapOnRight_def)
  next
    case nr: False
    with False have sl: "isRed sl" by simp
    let ?S = "MapNode (setColor AT_MAP_BLACK sl) pc sk sv (MapNode sr AT_MAP_BLACK pk pv ch)"
    have "outcomeOk (Rebalanced (rootOf ?S ps))"
    proof (rule outcomeOk_Rebalanced [where G = T0])
      show "noRedRed ?S" using ch s by (simp add: noRedRed_setColor_black isRed_setColor_black)
      show "isRed ?S \<longrightarrow> isRed T0" using T0(4) by (cases pc) simp_all
      show "blackBalanced ?S"
        using ch s sl by (simp add: blackBalanced_setColor blackHeight_setColor_red_to_black)
      show "blackHeight T0 = blackHeight ?S"
        using T0(3) s sl by (simp add: blackHeight_setColor_red_to_black)
    qed (rule T0)+
    moreover have "gapOnRight ch pc pk pv sl sk sv sr ps = Rebalanced (rootOf ?S ps)"
      using nr sl by (cases sr rule: isRed.cases) (simp_all add: gapOnRight_def)
    ultimately show ?thesis by simp
  qed
qed

lemma blackHeight_pos_node: "0 < blackHeight t \<Longrightarrow> t \<noteq> NullNode"
  by (cases t) simp_all

lemma not_red_node:
  "\<not> isRed t \<Longrightarrow> t \<noteq> NullNode \<Longrightarrow> (\<And>l k v r. t = MapNode l AT_MAP_BLACK k v r \<Longrightarrow> P) \<Longrightarrow> P"
  by (cases t rule: isRed.cases) auto

lemma rebalanceDeleteBody_ok:
  assumes "deficit child ps"
  shows "outcomeOk (rebalanceDeleteBody child ps)"
proof (cases ps)
  case Nil
  with assms show ?thesis by (simp add: deficit_def outcomeOk_def)
next
  case (Cons p rest)
  from assms obtain t0 where c: "blackBalanced child" "noRedRed (setColor AT_MAP_BLACK child)"
    and t0: "noRedRed (rootOf t0 ps)" "blackBalanced (rootOf t0 ps)"
      "blackHeight t0 = Suc (blackHeight child)" "isRed child \<or> \<not> isRed t0"
    unfolding deficit_def by blast
  from t0(1,2) have P0: "noRedRed (rootOf (plug p t0) rest)" "blackBalanced (rootOf (plug p t0) rest)"
    unfolding Cons by simp_all
  then have P0s: "noRedRed (plug p t0)" "blackBalanced (plug p t0)"
    using noRedRed_rootOf_sub [of "plug p t0" rest] blackBalanced_rootOf_sub [of "plug p t0" rest]
    by simp_all
  show ?thesis
  proof (cases "isRed child")
    case True
    let ?S = "plug p (setColor AT_MAP_BLACK child)"
    have "outcomeOk (Rebalanced (rootOf ?S rest))"
    proof (rule outcomeOk_Rebalanced [where G = "plug p t0"])
      show "noRedRed ?S" using P0s(1) c(2) by (cases p) (auto simp: isRed_setColor_black)
      show "isRed ?S \<longrightarrow> isRed (plug p t0)" by (simp add: isRed_plug)
      have h: "blackHeight t0 = blackHeight (setColor AT_MAP_BLACK child)"
        using t0(3) True by (simp add: blackHeight_setColor_red_to_black)
      show "blackBalanced ?S"
        by (rule blackBalanced_plug [OF h _ P0s(2)]) (simp add: blackBalanced_setColor c(1))
      show "blackHeight (plug p t0) = blackHeight ?S"
        using blackHeight_plug [OF h P0s(2)] by simp
    qed (rule P0)+
    with True show ?thesis unfolding Cons by (simp add: rebalanceDeleteBody_red_child)
  next
    case False
    with t0(4) have t0b: "\<not> isRed t0" by simp
    from False c(2) have cn: "noRedRed child" by (rule noRedRed_not_red)
    show ?thesis
    proof (cases p)
      case (LeftOf pc pk pv sib)
      from P0s LeftOf t0(3) have sib: "blackHeight sib = Suc (blackHeight child)"
        "blackBalanced sib" "noRedRed sib" "pc = AT_MAP_RED \<longrightarrow> \<not> isRed sib"
        by simp_all
      then have "sib \<noteq> NullNode" by (intro blackHeight_pos_node) simp
      then obtain sl sc sk sv sr where sn: "sib = MapNode sl sc sk sv sr" by (cases sib) auto
      with sib have sub: "blackBalanced sl" "blackBalanced sr" "noRedRed sl" "noRedRed sr"
        "blackHeight sl = blackHeight sr" by simp_all
      show ?thesis
      proof (cases sc)
        case AT_MAP_BLACK
        have "outcomeOk (gapOnLeft child pc pk pv sl sk sv sr rest)"
        proof (rule gapOnLeft_ok [where ?T0.0 = "plug p t0"])
          show "blackHeight sl = blackHeight child" "blackHeight sr = blackHeight child"
            using sib(1) sub(5) sn AT_MAP_BLACK by simp_all
          show "blackHeight (plug p t0) =
              Suc (blackHeight child) + (if pc = AT_MAP_BLACK then 1 else 0)"
            using LeftOf t0(3) by simp
          show "isRed (plug p t0) = (pc = AT_MAP_RED)" using LeftOf by (cases pc) simp_all
        qed (rule c cn sub P0)+
        with False sn AT_MAP_BLACK LeftOf Cons show ?thesis
          by (simp add: rebalanceDeleteBody_left_black_sibling del: rebalanceDeleteBody.simps)
      next
        case AT_MAP_RED
        with sib(4) sn have pc: "pc = AT_MAP_BLACK" by (cases pc) simp_all
        from sib(1,3) sn AT_MAP_RED have l: "\<not> isRed sl" "\<not> isRed sr"
          "blackHeight sl = Suc (blackHeight child)" "blackHeight sr = Suc (blackHeight child)"
          using sub(5) by simp_all
        then have "sl \<noteq> NullNode" by (intro blackHeight_pos_node) simp
        with l(1) obtain sll slk slv slr where sl: "sl = MapNode sll AT_MAP_BLACK slk slv slr"
          by (rule not_red_node)
        let ?Q = "MapNode t0 AT_MAP_RED pk pv sl"
        let ?ps = "LeftOf AT_MAP_BLACK sk sv sr # rest"
        have Q: "noRedRed (rootOf ?Q ?ps) \<and> blackBalanced (rootOf ?Q ?ps)"
          unfolding rootOf.simps plug.simps
        proof (rule rebalance_replace [where G = "plug p t0"])
          show "noRedRed (MapNode ?Q AT_MAP_BLACK sk sv sr)"
            using t0b l sub P0s(1) LeftOf by simp
          show "isRed (MapNode ?Q AT_MAP_BLACK sk sv sr) \<longrightarrow> isRed (plug p t0)" by simp
          show "blackBalanced (MapNode ?Q AT_MAP_BLACK sk sv sr)"
            using P0s(2) LeftOf sub l t0(3) by simp
          show "blackHeight (plug p t0) = blackHeight (MapNode ?Q AT_MAP_BLACK sk sv sr)"
            using LeftOf pc by simp
        qed (rule P0)+
        have "outcomeOk (gapOnLeft child AT_MAP_RED pk pv sll slk slv slr ?ps)"
        proof (rule gapOnLeft_ok [where ?T0.0 = ?Q])
          show "blackBalanced sll" "blackBalanced slr" "noRedRed sll" "noRedRed slr"
            using sub sl by simp_all
          show "blackHeight sll = blackHeight child" "blackHeight slr = blackHeight child"
            using sub(1) l(3) sl by simp_all
          show "blackHeight ?Q =
              Suc (blackHeight child) + (if AT_MAP_RED = AT_MAP_BLACK then 1 else 0)"
            using t0(3) by simp
          show "isRed ?Q = (AT_MAP_RED = AT_MAP_RED)" by simp
          show "noRedRed (rootOf ?Q ?ps)" "blackBalanced (rootOf ?Q ?ps)" using Q by blast+
        qed (rule c cn)+
        with False sn sl AT_MAP_RED LeftOf Cons show ?thesis
          by (simp add: rebalanceDeleteBody_left_red_sibling del: rebalanceDeleteBody.simps)
      qed
    next
      case (RightOf sib pc pk pv)
      from P0s RightOf t0(3) have sib: "blackHeight sib = Suc (blackHeight child)"
        "blackBalanced sib" "noRedRed sib" "pc = AT_MAP_RED \<longrightarrow> \<not> isRed sib"
        by simp_all
      then have "sib \<noteq> NullNode" by (intro blackHeight_pos_node) simp
      then obtain sl sc sk sv sr where sn: "sib = MapNode sl sc sk sv sr" by (cases sib) auto
      with sib have sub: "blackBalanced sl" "blackBalanced sr" "noRedRed sl" "noRedRed sr"
        "blackHeight sl = blackHeight sr" by simp_all
      show ?thesis
      proof (cases sc)
        case AT_MAP_BLACK
        have "outcomeOk (gapOnRight child pc pk pv sl sk sv sr rest)"
        proof (rule gapOnRight_ok [where ?T0.0 = "plug p t0"])
          show "blackHeight sl = blackHeight child" "blackHeight sr = blackHeight child"
            using sib(1) sub(5) sn AT_MAP_BLACK by simp_all
          show "blackHeight (plug p t0) =
              Suc (blackHeight child) + (if pc = AT_MAP_BLACK then 1 else 0)"
            using RightOf sib(1) by simp
          show "isRed (plug p t0) = (pc = AT_MAP_RED)" using RightOf by (cases pc) simp_all
        qed (rule c cn sub P0)+
        with False sn AT_MAP_BLACK RightOf Cons show ?thesis
          by (simp add: rebalanceDeleteBody_right_black_sibling del: rebalanceDeleteBody.simps)
      next
        case AT_MAP_RED
        with sib(4) sn have pc: "pc = AT_MAP_BLACK" by (cases pc) simp_all
        from sib(1,3) sn AT_MAP_RED have l: "\<not> isRed sl" "\<not> isRed sr"
          "blackHeight sl = Suc (blackHeight child)" "blackHeight sr = Suc (blackHeight child)"
          using sub(5) by simp_all
        then have "sr \<noteq> NullNode" by (intro blackHeight_pos_node) simp
        with l(2) obtain srl srk srv srr where sr: "sr = MapNode srl AT_MAP_BLACK srk srv srr"
          by (rule not_red_node)
        let ?Q = "MapNode sr AT_MAP_RED pk pv t0"
        let ?ps = "RightOf sl AT_MAP_BLACK sk sv # rest"
        have Q: "noRedRed (rootOf ?Q ?ps) \<and> blackBalanced (rootOf ?Q ?ps)"
          unfolding rootOf.simps plug.simps
        proof (rule rebalance_replace [where G = "plug p t0"])
          show "noRedRed (MapNode sl AT_MAP_BLACK sk sv ?Q)"
            using t0b l sub P0s(1) RightOf by simp
          show "isRed (MapNode sl AT_MAP_BLACK sk sv ?Q) \<longrightarrow> isRed (plug p t0)" by simp
          show "blackBalanced (MapNode sl AT_MAP_BLACK sk sv ?Q)"
            using P0s(2) RightOf sub l t0(3) by simp
          show "blackHeight (plug p t0) = blackHeight (MapNode sl AT_MAP_BLACK sk sv ?Q)"
            using RightOf pc sn AT_MAP_RED by simp
        qed (rule P0)+
        have "outcomeOk (gapOnRight child AT_MAP_RED pk pv srl srk srv srr ?ps)"
        proof (rule gapOnRight_ok [where ?T0.0 = ?Q])
          show "blackBalanced srl" "blackBalanced srr" "noRedRed srl" "noRedRed srr"
            using sub sr by simp_all
          show "blackHeight srl = blackHeight child" "blackHeight srr = blackHeight child"
            using sub(2) l(4) sr by simp_all
          show "blackHeight ?Q =
              Suc (blackHeight child) + (if AT_MAP_RED = AT_MAP_BLACK then 1 else 0)"
            using l(4) by simp
          show "isRed ?Q = (AT_MAP_RED = AT_MAP_RED)" by simp
          show "noRedRed (rootOf ?Q ?ps)" "blackBalanced (rootOf ?Q ?ps)" using Q by blast+
        qed (rule c cn)+
        with False sn sr AT_MAP_RED RightOf Cons show ?thesis
          by (simp add: rebalanceDeleteBody_right_red_sibling del: rebalanceDeleteBody.simps)
      qed
    qed
  qed
qed

lemma rebalanceDelete_ok:
  "deficit child ps \<Longrightarrow>
   \<exists>t. rebalanceDelete child ps = Some t \<and> noRedRed (setColor AT_MAP_BLACK t) \<and> blackBalanced t"
proof (induction child ps rule: rebalanceDelete.induct)
  case (1 child ps)
  from rebalanceDeleteBody_ok [OF "1.prems"] have ok: "outcomeOk (rebalanceDeleteBody child ps)" .
  show ?case
  proof (cases "rebalanceDeleteBody child ps")
    case (Rebalanced t)
    with ok show ?thesis by (subst rebalanceDelete.simps) (simp add: outcomeOk_def)
  next
    case (Recurse child' ps')
    with ok have "deficit child' ps'" by (simp add: outcomeOk_def)
    from "1.IH" [OF Recurse this] Recurse show ?thesis
      by (subst rebalanceDelete.simps) simp
  next
    case NullDereference
    with ok show ?thesis by (simp add: outcomeOk_def)
  qed
qed

subsection \<open>The entries after rebalanceDelete\<close>

lemma inorderEntries_rootOf_cong:
  "inorderEntries t = inorderEntries t' \<Longrightarrow>
   inorderEntries (rootOf t ps) = inorderEntries (rootOf t' ps)"
  by (simp add: inorderEntries_rootOf)

lemma inorderEntries_setColor: "inorderEntries (setColor c t) = inorderEntries t"
  by (cases t) simp_all

lemma gapOnLeft_entries:
  "outcomeEntries (gapOnLeft ch pc pk pv sl sk sv sr ps) =
   Some (inorderEntries (rootOf (MapNode ch pc pk pv (MapNode sl sc sk sv sr)) ps))"
  by (cases sl rule: isRed.cases)
     (auto simp: gapOnLeft_def inorderEntries_rootOf inorderEntries_setColor)

lemma gapOnRight_entries:
  "outcomeEntries (gapOnRight ch pc pk pv sl sk sv sr ps) =
   Some (inorderEntries (rootOf (MapNode (MapNode sl sc sk sv sr) pc pk pv ch) ps))"
  by (cases sr rule: isRed.cases)
     (auto simp: gapOnRight_def inorderEntries_rootOf inorderEntries_setColor)

lemma rebalanceDeleteBody_entries:
  "rebalanceDeleteBody child ps \<noteq> NullDereference \<Longrightarrow>
   outcomeEntries (rebalanceDeleteBody child ps) = Some (inorderEntries (rootOf child ps))"
proof (cases ps)
  case Nil
  then show ?thesis by simp
next
  case (Cons p rest)
  assume nd: "rebalanceDeleteBody child ps \<noteq> NullDereference"
  show ?thesis
  proof (cases "isRed child")
    case True
    then show ?thesis
      unfolding Cons
      by (cases p)
         (simp_all add: rebalanceDeleteBody_red_child inorderEntries_rootOf
            inorderEntries_setColor del: rebalanceDeleteBody.simps)
  next
    case False
    show ?thesis
    proof (cases p)
      case (LeftOf pc pk pv sib)
      show ?thesis
      proof (cases sib)
        case NullNode
        with nd False LeftOf Cons show ?thesis by simp
      next
        case (MapNode sl sc sk sv sr)
        show ?thesis
        proof (cases sc)
          case AT_MAP_BLACK
          with False MapNode LeftOf Cons show ?thesis
            by (simp add: rebalanceDeleteBody_left_black_sibling
                gapOnLeft_entries [where sc = AT_MAP_BLACK] del: rebalanceDeleteBody.simps)
        next
          case AT_MAP_RED
          show ?thesis
          proof (cases sl)
            case NullNode
            with nd False MapNode AT_MAP_RED LeftOf Cons show ?thesis by simp
          next
            case (MapNode sll slc slk slv slr)
            with False \<open>sib = MapNode sl sc sk sv sr\<close> AT_MAP_RED LeftOf Cons show ?thesis
              by (simp add: rebalanceDeleteBody_left_red_sibling
                  gapOnLeft_entries [where sc = slc] inorderEntries_rootOf
                  del: rebalanceDeleteBody.simps)
          qed
        qed
      qed
    next
      case (RightOf sib pc pk pv)
      show ?thesis
      proof (cases sib)
        case NullNode
        with nd False RightOf Cons show ?thesis by simp
      next
        case (MapNode sl sc sk sv sr)
        show ?thesis
        proof (cases sc)
          case AT_MAP_BLACK
          with False MapNode RightOf Cons show ?thesis
            by (simp add: rebalanceDeleteBody_right_black_sibling
                gapOnRight_entries [where sc = AT_MAP_BLACK] del: rebalanceDeleteBody.simps)
        next
          case AT_MAP_RED
          show ?thesis
          proof (cases sr)
            case NullNode
            with nd False MapNode AT_MAP_RED RightOf Cons show ?thesis by simp
          next
            case (MapNode srl src srk srv srr)
            with False \<open>sib = MapNode sl sc sk sv sr\<close> AT_MAP_RED RightOf Cons show ?thesis
              by (simp add: rebalanceDeleteBody_right_red_sibling
                  gapOnRight_entries [where sc = src] inorderEntries_rootOf
                  del: rebalanceDeleteBody.simps)
          qed
        qed
      qed
    qed
  qed
qed

lemma rebalanceDelete_entries:
  "rebalanceDelete child ps = Some t \<Longrightarrow> inorderEntries t = inorderEntries (rootOf child ps)"
proof (induction child ps rule: rebalanceDelete.induct)
  case (1 child ps)
  show ?case
  proof (cases "rebalanceDeleteBody child ps")
    case (Rebalanced t')
    with "1.prems" have "t' = t" by (subst (asm) rebalanceDelete.simps) simp
    with Rebalanced rebalanceDeleteBody_entries [of child ps] show ?thesis by simp
  next
    case (Recurse child' ps')
    with "1.prems" have "rebalanceDelete child' ps' = Some t"
      by (subst (asm) rebalanceDelete.simps) simp
    from "1.IH" [OF Recurse this] Recurse rebalanceDeleteBody_entries [of child ps]
    show ?thesis by simp
  next
    case NullDereference
    with "1.prems" show ?thesis by (subst (asm) rebalanceDelete.simps) simp
  qed
qed

section \<open>deleteNode on a balanced tree\<close>

lemma isRed_node_color: "isRed (MapNode l c k v r) = (c = AT_MAP_RED)"
  by (cases c) simp_all

lemma black_height_zero: "\<not> isRed t \<Longrightarrow> blackHeight t = 0 \<Longrightarrow> t = NullNode"
  by (cases t rule: isRed.cases) simp_all

lemma deleteNode_unlink:
  assumes one: "l = NullNode \<or> r = NullNode"
    and valid: "noRedRed (rootOf (MapNode l c k v r) ps)"
      "blackBalanced (rootOf (MapNode l c k v r) ps)"
  shows "\<exists>t. deleteNode (MapNode l c k v r) ps = Some t \<and>
    noRedRed (setColor AT_MAP_BLACK t) \<and> blackBalanced t \<and>
    inorderEntries t = valuesBefore ps @ inorderEntries l @ inorderEntries r @ valuesAfter ps"
proof -
  let ?n = "MapNode l c k v r"
  let ?child = "if l \<noteq> NullNode then l else r"
  from valid have sub: "noRedRed ?n" "blackBalanced ?n"
    using noRedRed_rootOf_sub [of ?n ps] blackBalanced_rootOf_sub [of ?n ps] by simp_all
  have ce: "inorderEntries ?child = inorderEntries l @ inorderEntries r"
    using one by auto
  have cb: "blackBalanced ?child" "noRedRed ?child" "blackHeight ?child = blackHeight l"
    using sub one by auto
  show ?thesis
  proof (cases c)
    case AT_MAP_RED
    with sub one have "\<not> isRed l" "\<not> isRed r" "blackHeight l = 0" "blackHeight r = 0" by auto
    then have nn: "l = NullNode" "r = NullNode" by (simp_all add: black_height_zero)
    have "noRedRed (rootOf NullNode ps) \<and> blackBalanced (rootOf NullNode ps)"
      using valid by (intro rebalance_replace [where G = ?n]) (simp_all add: nn AT_MAP_RED)
    then show ?thesis
      using nn AT_MAP_RED
      by (simp add: deleteNode_at_most_one_child inorderEntries_rootOf noRedRed_setColor_black)
  next
    case AT_MAP_BLACK
    have "deficit ?child ps"
      unfolding deficit_def
    proof (intro conjI exI [of _ ?n])
      show "noRedRed (setColor AT_MAP_BLACK ?child)"
        using cb(2) by (rule noRedRed_setColor_black)
      show "blackHeight ?n = Suc (blackHeight ?child)" using cb(3) AT_MAP_BLACK by simp
      show "isRed ?child \<or> \<not> isRed ?n" using AT_MAP_BLACK by simp
    qed (rule cb valid)+
    from rebalanceDelete_ok [OF this] obtain t where
      t: "rebalanceDelete ?child ps = Some t" "noRedRed (setColor AT_MAP_BLACK t)" "blackBalanced t"
      by blast
    from rebalanceDelete_entries [OF t(1)] ce
    have "inorderEntries t = valuesBefore ps @ inorderEntries l @ inorderEntries r @ valuesAfter ps"
      by (simp add: inorderEntries_rootOf)
    with t one AT_MAP_BLACK show ?thesis
      by (simp add: deleteNode_at_most_one_child)
  qed
qed

lemma swapped_tree_valid:
  assumes valid: "noRedRed (rootOf (MapNode l c k v (rootOf (MapNode sl sc sk sv sr) sp)) ps)"
      "blackBalanced (rootOf (MapNode l c k v (rootOf (MapNode sl sc sk sv sr) sp)) ps)"
  shows "noRedRed (rootOf (MapNode sl sc k' v' sr) (sp @ RightOf l c sk' sv' # ps)) \<and>
    blackBalanced (rootOf (MapNode sl sc k' v' sr) (sp @ RightOf l c sk' sv' # ps))"
proof -
  let ?s = "MapNode sl sc sk sv sr" and ?s' = "MapNode sl sc k' v' sr"
  let ?X = "rootOf ?s sp" and ?X' = "rootOf ?s' sp"
  let ?N = "MapNode l c k v ?X" and ?N' = "MapNode l c sk' sv' ?X'"
  from valid have N: "noRedRed ?N" "blackBalanced ?N"
    using noRedRed_rootOf_sub [of ?N ps] blackBalanced_rootOf_sub [of ?N ps] by simp_all
  then have X: "noRedRed ?X" "blackBalanced ?X" by simp_all
  then have s: "noRedRed ?s" "blackBalanced ?s"
    using noRedRed_rootOf_sub [of ?s sp] blackBalanced_rootOf_sub [of ?s sp] by simp_all
  have X': "noRedRed ?X'" "blackBalanced ?X'"
  proof -
    show "noRedRed ?X'"
      by (rule noRedRed_rootOf_replace [OF _ _ X(1)]) (use s in \<open>simp_all add: isRed_node_color\<close>)
    show "blackBalanced ?X'"
      by (rule blackBalanced_rootOf_replace [OF _ _ X(2)]) (use s in \<open>simp_all\<close>)
  qed
  have h: "blackHeight ?X' = blackHeight ?X"
    by (rule blackHeight_rootOf_replace [OF _ X(2)]) simp
  have r: "isRed ?X' = isRed ?X"
    by (rule isRed_rootOf_replace) (simp add: isRed_node_color)
  have "noRedRed (rootOf ?N' ps) \<and> blackBalanced (rootOf ?N' ps)"
  proof (rule rebalance_replace [where G = ?N])
    show "noRedRed ?N'" using N(1) X'(1) r by simp
    show "isRed ?N' \<longrightarrow> isRed ?N" by (cases c) simp_all
    show "blackBalanced ?N'" using N(2) X'(2) h by simp
    show "blackHeight ?N = blackHeight ?N'" by simp
  qed (rule valid)+
  then show ?thesis by (simp add: rootOf_append)
qed

lemma deleteNode_ok:
  assumes valid: "noRedRed (rootOf (MapNode l c k v r) ps)"
      "blackBalanced (rootOf (MapNode l c k v r) ps)"
  shows "\<exists>t. deleteNode (MapNode l c k v r) ps = Some t \<and>
    noRedRed (setColor AT_MAP_BLACK t) \<and> blackBalanced t \<and>
    inorderEntries t = valuesBefore ps @ inorderEntries l @ inorderEntries r @ valuesAfter ps"
proof (cases "l = NullNode \<or> r = NullNode")
  case True
  from deleteNode_unlink [OF True valid] show ?thesis .
next
  case False
  then have two: "l \<noteq> NullNode" "r \<noteq> NullNode" by simp_all
  from deleteNode_successor_step [OF two, of c k v ps]
  obtain sc sk sv sr sp where
    s: "rootOf (MapNode NullNode sc sk sv sr) sp = r" "leftLinks sp"
      "deleteNode (MapNode l c k v r) ps =
         deleteNode (MapNode NullNode sc k v sr) (sp @ RightOf l c sk sv # ps)" by blast
  let ?ps = "sp @ RightOf l c sk sv # ps"
  have sw: "noRedRed (rootOf (MapNode NullNode sc k v sr) ?ps) \<and>
      blackBalanced (rootOf (MapNode NullNode sc k v sr) ?ps)"
    by (rule swapped_tree_valid [where k = k and v = v and sk = sk and sv = sv])
       (simp_all add: s(1) valid)
  have "NullNode = NullNode \<or> sr = NullNode" by simp
  from deleteNode_unlink [OF this, of sc k v ?ps] sw
  obtain t where t: "deleteNode (MapNode NullNode sc k v sr) ?ps = Some t"
    "noRedRed (setColor AT_MAP_BLACK t)" "blackBalanced t"
    "inorderEntries t = valuesBefore ?ps @ inorderEntries NullNode @ inorderEntries sr @
       valuesAfter ?ps" by blast
  have r: "inorderEntries r = (sk, sv) # inorderEntries sr @ valuesAfter sp"
    using inorderEntries_rootOf [of "MapNode NullNode sc sk sv sr" sp] s(1,2)
    by (simp add: leftLinks_valuesBefore)
  have before: "valuesBefore ?ps = valuesBefore ps @ inorderEntries l @ [(sk, sv)]"
    using s(2) by (induction sp rule: leftLinks.induct) simp_all
  have after: "valuesAfter ?ps = valuesAfter sp @ valuesAfter ps"
    using s(2) by (induction sp rule: leftLinks.induct) simp_all
  from t(4) r before after
  have "inorderEntries t =
      valuesBefore ps @ inorderEntries l @ inorderEntries r @ valuesAfter ps" by simp
  with t s(3) show ?thesis by simp
qed

section \<open>deleteEntry\<close>

lemma not_equal_off_place:
  assumes ord: "compareIsOrder cmp" and agr: "equalsAgrees cmp eq"
    and asc: "keysAscending cmp (bs @ k0 # as)" and k0: "eq k0 key"
  shows "\<forall>x \<in> set (bs @ as). \<not> eq x key"
proof
  fix x assume x: "x \<in> set (bs @ as)"
  from k0 agr have z: "cmp k0 key = 0" by (simp add: equalsAgrees_def)
  from asc have "\<forall>b \<in> set bs. cmp b k0 < 0" "\<forall>a \<in> set as. cmp k0 a < 0"
    by (auto simp: keysAscending_def sorted_wrt_append)
  with x consider "cmp x k0 < 0" | "cmp k0 x < 0" by auto
  then have "cmp x key \<noteq> 0"
  proof cases
    case 1
    then have "cmp x key < 0" using cmp_zero_left(2) [OF ord z, of x] by simp
    then show ?thesis by simp
  next
    case 2
    then have "cmp key x < 0" using cmp_zero_left(1) [OF ord z, of x] by simp
    then have "0 < cmp x key" using cmp_flip [OF ord, of key x] by simp
    then show ?thesis by simp
  qed
  with agr show "\<not> eq x key" by (simp add: equalsAgrees_def)
qed

lemma unat_minus_one_word: "w \<noteq> 0 \<Longrightarrow> unat (w - 1 :: 64 word) = unat w - 1"
  by (simp add: unat_minus_one)

text \<open>
  Claim C2, as amended. When \<^verbatim>\<open>compare\<close> is an ordering of the keys and \<^verbatim>\<open>equals\<close> agrees with
  it, for a map that satisfies the five red-black invariants and a key equal to a
  stored key, \<^verbatim>\<open>deleteEntry\<close> returns true (and dereferences no null pointer), the entry
  of that key is gone and all others are as before, \<^verbatim>\<open>getValue\<close> of the key is null
  afterwards, the counter is one less, the tree has one node less, and the five
  invariants hold again; the counter still is the number of nodes if it was before.
\<close>

theorem deleteEntry_removes_key:
  assumes "compareIsOrder cmp" and "equalsAgrees cmp eq" and "redBlackInvariants cmp eq m"
    and "k \<in> set (inorderKeys (treeRoot m))" and "eq k key"
  shows "\<exists>m'. deleteEntry cmp eq m key = Some (True, m') \<and>
     getValue cmp eq m' key = None \<and> \<not> containsKey cmp eq m' key \<and>
     treeSize m' = treeSize m - 1 \<and> numNodes (treeRoot m') + 1 = numNodes (treeRoot m) \<and>
     redBlackInvariants cmp eq m' \<and> (sizeTracked m \<longrightarrow> sizeTracked m') \<and>
     (\<exists>bs k0 v0 as. eq k0 key \<and> inorderEntries (treeRoot m) = bs @ (k0, v0) # as \<and>
        inorderEntries (treeRoot m') = bs @ as)"
proof -
  from assms(3) have inv: "bstOrdering cmp (treeRoot m)" "keyUniqueness eq (treeRoot m)"
    "noRedRed (treeRoot m)" "blackBalanced (treeRoot m)"
    by (simp_all add: redBlackInvariants_def)
  from assms(2) have agr': "\<forall>a b. cmp a b = 0 \<longrightarrow> eq a b" by (simp add: equalsAgrees_def)
  have asc: "keysAscending cmp (inorderKeys (treeRoot m))"
    by (rule ascending_of_bstOrdering [OF assms(1) agr' inv(1,2)])
  from findNode_bstOrdering [OF assms(1,2) inv(1) assms(4,5), of "[]"]
  obtain n ps where found: "findNode cmp eq (treeRoot m) [] key = Some (n, ps)" by auto
  from findNode_found [OF found] obtain l c k0 v0 r where
    n: "n = MapNode l c k0 v0 r" "eq k0 key" and root: "rootOf n ps = treeRoot m" by auto
  have valid: "noRedRed (rootOf (MapNode l c k0 v0 r) ps)"
    "blackBalanced (rootOf (MapNode l c k0 v0 r) ps)"
    using inv(3,4) root n(1) by simp_all
  from deleteNode_ok [OF valid] obtain t where
    t: "deleteNode (MapNode l c k0 v0 r) ps = Some t" "noRedRed (setColor AT_MAP_BLACK t)"
      "blackBalanced t"
      "inorderEntries t = valuesBefore ps @ inorderEntries l @ inorderEntries r @ valuesAfter ps"
    by blast
  let ?m = "\<lparr>treeRoot = setColor AT_MAP_BLACK t, treeSize = treeSize m - 1\<rparr>"
  let ?bs = "valuesBefore ps @ inorderEntries l" and ?as = "inorderEntries r @ valuesAfter ps"
  have res: "deleteEntry cmp eq m key = Some (True, ?m)"
    using found n(1) t(1) by (simp add: deleteEntry_def)
  have old: "inorderEntries (treeRoot m) = ?bs @ (k0, v0) # ?as"
    using root n(1) inorderEntries_rootOf [of n ps] by simp
  have new: "inorderEntries (treeRoot ?m) = ?bs @ ?as"
    using t(4) by (simp add: inorderEntries_setColor)
  have oldk: "inorderKeys (treeRoot m) = map fst ?bs @ k0 # map fst ?as"
    using old map_fst_inorderEntries [of "treeRoot m"] by simp
  have newk: "inorderKeys (treeRoot ?m) = map fst ?bs @ map fst ?as"
    using new map_fst_inorderEntries [of "treeRoot ?m"] by simp
  have asc': "keysAscending cmp (inorderKeys (treeRoot ?m))"
    using asc unfolding oldk newk by (auto simp: keysAscending_def sorted_wrt_append)
  have uniq': "keyUniqueness eq (treeRoot ?m)"
    using inv(2) unfolding keyUniqueness_def oldk newk by (auto simp: sorted_wrt_append)
  have rb: "redBlackInvariants cmp eq ?m"
    using bstOrdering_of_ascending [OF assms(1) asc'] uniq' t(2,3)
    by (simp add: redBlackInvariants_def rootBlack_def isRed_setColor_black blackBalanced_setColor)
  have "\<forall>x \<in> set (map fst ?bs @ map fst ?as). \<not> eq x key"
    by (rule not_equal_off_place [OF assms(1,2) _ n(2)]) (use asc oldk in simp)
  then have "\<forall>x \<in> set (inorderKeys (treeRoot ?m)). \<not> eq x key" unfolding newk .
  then have gone: "findNode cmp eq (treeRoot ?m) [] key = None" by (rule findNode_absent)
  have nodes: "numNodes (treeRoot ?m) + 1 = numNodes (treeRoot m)"
    unfolding numNodes_length oldk newk by simp
  have tracked: "sizeTracked ?m" if "sizeTracked m"
  proof -
    from that nodes have u: "unat (treeSize m) = numNodes (treeRoot ?m) + 1"
      by (simp add: sizeTracked_def)
    then have "treeSize m \<noteq> 0" by auto
    from unat_minus_one_word [OF this] u show ?thesis by (simp add: sizeTracked_def)
  qed
  have "\<exists>bs k0 v0 as. eq k0 key \<and> inorderEntries (treeRoot m) = bs @ (k0, v0) # as \<and>
        inorderEntries (treeRoot ?m) = bs @ as"
    using n(2) old new by blast
  with res gone nodes rb tracked show ?thesis
    by (intro exI [of _ ?m]) (simp add: getValue_def containsKey_def)
qed

theorem deleteEntry_removes_key_witness:
  "compareIsOrder (\<lambda>a b :: int. a - b) \<and> equalsAgrees (\<lambda>a b :: int. a - b) (=) \<and>
   redBlackInvariants (\<lambda>a b :: int. a - b) (=)
     \<lparr>treeRoot = MapNode (MapNode NullNode AT_MAP_BLACK 3 (Some (30::nat)) NullNode)
                   AT_MAP_BLACK 5 (Some 50)
                   (MapNode NullNode AT_MAP_BLACK 8 (Some 80)
                      (MapNode NullNode AT_MAP_RED 9 (Some 90) NullNode)), treeSize = 4\<rparr> \<and>
   deleteEntry (\<lambda>a b :: int. a - b) (=)
     \<lparr>treeRoot = MapNode (MapNode NullNode AT_MAP_BLACK 3 (Some (30::nat)) NullNode)
                   AT_MAP_BLACK 5 (Some 50)
                   (MapNode NullNode AT_MAP_BLACK 8 (Some 80)
                      (MapNode NullNode AT_MAP_RED 9 (Some 90) NullNode)), treeSize = 4\<rparr> 3 =
   Some (True,
     \<lparr>treeRoot = MapNode (MapNode NullNode AT_MAP_BLACK 5 (Some 50) NullNode)
                   AT_MAP_BLACK 8 (Some 80)
                   (MapNode NullNode AT_MAP_BLACK 9 (Some 90) NullNode), treeSize = 3\<rparr>)"
proof -
  let ?m = "\<lparr>treeRoot = MapNode (MapNode NullNode AT_MAP_BLACK (3::int) (Some (30::nat)) NullNode)
                   AT_MAP_BLACK 5 (Some 50)
                   (MapNode NullNode AT_MAP_BLACK 8 (Some 80)
                      (MapNode NullNode AT_MAP_RED 9 (Some 90) NullNode)), treeSize = 4\<rparr>"
  have a: "compareIsOrder (\<lambda>a b :: int. a - b)" by (rule compareIsOrder_cmpInt)
  have b: "equalsAgrees (\<lambda>a b :: int. a - b) (=)" by (simp add: equalsAgrees_def)
  have c: "redBlackInvariants (\<lambda>a b :: int. a - b) (=) ?m"
    by (simp add: redBlackInvariants_def keyUniqueness_def rootBlack_def)
  have d: "(3::int) \<in> set (inorderKeys (treeRoot ?m))" by simp
  have e: "(3::int) = 3" by simp
  from deleteEntry_removes_key [OF a b c d e]
  obtain m' where m': "deleteEntry (\<lambda>a b :: int. a - b) (=) ?m 3 = Some (True, m')"
    "treeSize m' = treeSize ?m - 1"
    "\<exists>bs k0 v0 as. k0 = 3 \<and> inorderEntries (treeRoot ?m) = bs @ (k0, v0) # as \<and>
        inorderEntries (treeRoot m') = bs @ as" by blast
  have "deleteEntry (\<lambda>a b :: int. a - b) (=) ?m 3 =
    Some (True,
     \<lparr>treeRoot = MapNode (MapNode NullNode AT_MAP_BLACK 5 (Some 50) NullNode)
                   AT_MAP_BLACK 8 (Some 80)
                   (MapNode NullNode AT_MAP_BLACK 9 (Some 90) NullNode), treeSize = 3\<rparr>)"
    by (simp add: deleteEntry_def deleteNode.simps rebalanceDelete.simps)
  with a b c m' show ?thesis by simp
qed

lemma tiedMap4_eq:
  "tiedMap4 =
     \<lparr>treeRoot = MapNode (MapNode NullNode AT_MAP_BLACK (0, 0) (Some 0) NullNode)
                   AT_MAP_BLACK (1, 0) (Some 10)
                   (MapNode NullNode AT_MAP_BLACK (1, 1) (Some 11)
                      (MapNode NullNode AT_MAP_RED (2, 0) (Some 20) NullNode)),
      treeSize = 4\<rparr>"
  by (simp add: tiedMap4_def emptyMap_def addEntry_def containsKey_def compareFirst_def
      equalsBoth_def)

text \<open>
  With keys that tie under \<^verbatim>\<open>compare\<close> and differ under \<^verbatim>\<open>equals\<close> the claim as stated fails.
  The map \<open>tiedMap4\<close> satisfies the five invariants. Deleting its key \<open>(0, 0)\<close> succeeds,
  and the rotation of \<^verbatim>\<open>rebalanceDelete\<close> that repairs the black heights puts \<open>(1, 0)\<close> into
  the left subtree of \<open>(1, 1)\<close>, which compares equal to it: invariant 1 is broken.
\<close>

theorem deleteEntry_breaks_order_of_tied_keys:
  "compareIsOrder compareFirst \<and> redBlackInvariants compareFirst equalsBoth tiedMap4 \<and>
   (0, 0) \<in> set (inorderKeys (treeRoot tiedMap4)) \<and>
   deleteEntry compareFirst equalsBoth tiedMap4 (0, 0) =
     Some (True,
       \<lparr>treeRoot = MapNode (MapNode NullNode AT_MAP_BLACK (1, 0) (Some 10) NullNode)
                     AT_MAP_BLACK (1, 1) (Some 11)
                     (MapNode NullNode AT_MAP_BLACK (2, 0) (Some 20) NullNode),
        treeSize = 3\<rparr>) \<and>
   \<not> bstOrdering compareFirst
       (MapNode (MapNode NullNode AT_MAP_BLACK (1, 0) (Some 10) NullNode)
          AT_MAP_BLACK (1, 1) (Some 11)
          (MapNode NullNode AT_MAP_BLACK (2, 0) (Some 20) NullNode))"
  by (simp add: compareIsOrder_compareFirst tiedMap4_eq redBlackInvariants_def keyUniqueness_def
      rootBlack_def deleteEntry_def deleteNode.simps rebalanceDelete.simps compareFirst_def
      equalsBoth_def)

lemma deleteEntry_misses_tied_key:
  "(1, 1) \<in> set (inorderKeys (treeRoot tiedMap)) \<and>
   deleteEntry compareFirst equalsBoth tiedMap (1, 1) = Some (False, tiedMap)"
  by (simp add: tiedMap_eq deleteEntry_def compareFirst_def equalsBoth_def)

section \<open>An equality coarser than the ordering\<close>

lemma foldedMap_eq:
  "foldedMap = \<lparr>treeRoot = MapNode NullNode AT_MAP_BLACK 2 (Some 20)
                              (MapNode NullNode AT_MAP_RED 5 (Some 50) NullNode),
                treeSize = 2\<rparr>"
  by (simp add: foldedMap_def emptyMap_def addEntry_def containsKey_def compareSigned_def
      equalsAbs_def)

text \<open>
  The other way for \<^verbatim>\<open>equals\<close> and \<^verbatim>\<open>compare\<close> to disagree. The key -5 equals the stored key 5
  and is looked for on the left of 2: it is not found, not deleted, and \<^verbatim>\<open>addEntry\<close>
  accepts it as a new entry. The key -2 was never inserted and \<^verbatim>\<open>getValue\<close> answers with
  the value of 2.
\<close>

lemma coarse_equals_misses_stored_key:
  "compareIsOrder compareSigned \<and> redBlackInvariants compareSigned equalsAbs foldedMap \<and>
   5 \<in> set (inorderKeys (treeRoot foldedMap)) \<and> equalsAbs 5 (- 5) \<and>
   getValue compareSigned equalsAbs foldedMap (- 5) = None \<and>
   deleteEntry compareSigned equalsAbs foldedMap (- 5) = Some (False, foldedMap) \<and>
   fst (addEntry compareSigned equalsAbs foldedMap (- 5) None) \<and>
   - 2 \<notin> set (inorderKeys (treeRoot foldedMap)) \<and>
   getValue compareSigned equalsAbs foldedMap (- 2) = Some 20"
  by (simp add: compareIsOrder_def foldedMap_eq redBlackInvariants_def keyUniqueness_def
      rootBlack_def getValue_def deleteEntry_def addEntry_def containsKey_def compareSigned_def
      equalsAbs_def)

end
